theory Spec2Isabelle
  imports Main "HOL-Library.Word" "HOL-Library.Sublist"
begin

section \<open>Data model\<close>

text \<open>
  A JavaScript string is a sequence of UTF-16 code units; a \<open>Uint8Array\<close> is a sequence
  of bytes. \<open>js\<close> writes a string literal of the source as code units.
\<close>

type_synonym byte = "8 word"
type_synonym jschar = "16 word"
type_synonym jsstring = "16 word list"

definition js :: "string \<Rightarrow> jsstring" where
  "js s = map (\<lambda>c. of_nat (of_char c)) s"

text \<open>\<open>String.prototype.includes\<close>: the argument occurs as a contiguous run.\<close>

primrec js_includes :: "jsstring \<Rightarrow> jsstring \<Rightarrow> bool" where
  "js_includes [] t = (t = [])"
| "js_includes (c # cs) t = (prefix t (c # cs) \<or> js_includes cs t)"

section \<open>WebSocket relay: close codes (src/index.ts)\<close>

text \<open>
  \<^verbatim>\<open>function transformErrorMessage(message, host)\<close>, lines 29-39.
\<close>

definition transformErrorMessage :: "jsstring \<Rightarrow> jsstring \<Rightarrow> jsstring" where
  "transformErrorMessage message host =
     (if js_includes message (js ''gateway token missing'')
         \<or> js_includes message (js ''gateway token mismatch'')
      then js ''Invalid or missing token. Visit https://'' @ host
             @ js ''?token={REPLACE_WITH_YOUR_TOKEN}''
      else if js_includes message (js ''pairing required'')
      then js ''Pairing required. Visit https://'' @ host @ js ''/_admin/''
      else message)"

text \<open>
  \<^verbatim>\<open>function safeCloseCode(code: number): number\<close>, lines 41-45. The code of a close
  event is an integer.
\<close>

definition safeCloseCode :: "int \<Rightarrow> int" where
  "safeCloseCode code = (if code = 1005 \<or> code = 1006 then 1011 else code)"

record close_event =
  code :: int
  reason :: jsstring

text \<open>
  The two close handlers of the relay (lines 335-355). Each returns the arguments of the
  \<open>close\<close> call it makes on the other socket: the handler of the client-side socket
  closes the container socket, and the other way round.
\<close>

definition client_close_relay :: "close_event \<Rightarrow> int \<times> jsstring" where
  "client_close_relay ev = (safeCloseCode (code ev), reason ev)"

definition container_close_relay :: "jsstring \<Rightarrow> close_event \<Rightarrow> int \<times> jsstring" where
  "container_close_relay host ev =
     (let r = transformErrorMessage (reason ev) host;
          r' = (if length r > 123 then take 120 r @ js ''...'' else r)
      in (safeCloseCode (code ev), r'))"

text \<open>
  RFC 6455, section 7.4.1, the section the comment on \<open>safeCloseCode\<close> cites: the status
  codes that "MUST NOT be set as a status code in a Close control frame by an endpoint"
  are 1005, 1006 and 1015.
\<close>

definition rfc6455_must_not_send :: "int \<Rightarrow> bool" where
  "rfc6455_must_not_send c = (c = 1005 \<or> c = 1006 \<or> c = 1015)"

section \<open>Login rate limiter (src/routes/auth.ts)\<close>






section \<open>Platform functions used by the session module\<close>

text \<open>
  The exceptions the modelled platform functions throw (DOMException names,
  \<open>SyntaxError\<close> and \<open>RangeError\<close>).
\<close>

datatype js_error =
  InvalidCharacterError | DataError | OperationError | SyntaxError | RangeError

subsection \<open>\<open>btoa\<close> and \<open>atob\<close>\<close>

text \<open>The base64 alphabet: the code unit of a 6-bit value, and the value of a code unit.\<close>

definition b64char :: "nat \<Rightarrow> jschar" where
  "b64char i = of_nat (if i < 26 then 65 + i else if i < 52 then 71 + i
                       else if i < 62 then i - 4 else if i = 62 then 43 else 47)"

definition b64val :: "jschar \<Rightarrow> nat option" where
  "b64val c = (let n = unat c in
     if 65 \<le> n \<and> n \<le> 90 then Some (n - 65)
     else if 97 \<le> n \<and> n \<le> 122 then Some (n - 71)
     else if 48 \<le> n \<and> n \<le> 57 then Some (n + 4)
     else if n = 43 then Some 62
     else if n = 47 then Some 63
     else None)"

text \<open>Three bytes give four 6-bit values; one or two trailing bytes give two or three.\<close>

fun sextets :: "byte list \<Rightarrow> nat list" where
  "sextets (a # b # c # rest) =
     [unat a div 4, (unat a mod 4) * 16 + unat b div 16,
      (unat b mod 16) * 4 + unat c div 64, unat c mod 64] @ sextets rest"
| "sextets [a, b] =
     [unat a div 4, (unat a mod 4) * 16 + unat b div 16, (unat b mod 16) * 4]"
| "sextets [a] = [unat a div 4, (unat a mod 4) * 16]"
| "sextets [] = []"

definition base64_encode :: "byte list \<Rightarrow> jsstring" where
  "base64_encode bs =
     map b64char (sextets bs) @ replicate ((3 - length bs mod 3) mod 3) 61"

text \<open>
  \<open>btoa(s)\<close> throws InvalidCharacterError when a code unit of \<open>s\<close> exceeds 255; otherwise
  the code units are the bytes to encode.
\<close>

definition btoa :: "jsstring \<Rightarrow> js_error + jsstring" where
  "btoa s = (if list_ex (\<lambda>u. u > 255) s then Inl InvalidCharacterError
             else Inr (base64_encode (map ucast s)))"

text \<open>
  \<open>atob\<close> is the forgiving-base64 decode of the WHATWG Infra standard: ASCII whitespace is
  removed; when the length is then a multiple of 4, one or two trailing \<open>=\<close> are removed;
  a length of 1 modulo 4 or a code unit outside the alphabet is a failure; a final group of
  two or three characters gives one or two bytes, its unused low bits discarded.
\<close>

definition ascii_whitespace :: "jschar \<Rightarrow> bool" where
  "ascii_whitespace c = (c = 9 \<or> c = 10 \<or> c = 12 \<or> c = 13 \<or> c = 32)"

definition strip_padding :: "jsstring \<Rightarrow> jsstring" where
  "strip_padding d =
     (case rev d of
        a # b # r \<Rightarrow> if a = 61 \<and> b = 61 then rev r else if a = 61 then rev (b # r) else d
      | [a] \<Rightarrow> if a = 61 then [] else d
      | [] \<Rightarrow> d)"

fun base64_decode :: "nat list \<Rightarrow> byte list" where
  "base64_decode (a # b # c # d # rest) =
     [of_nat (a * 4 + b div 16), of_nat ((b mod 16) * 16 + c div 4),
      of_nat ((c mod 4) * 64 + d)] @ base64_decode rest"
| "base64_decode [a, b, c] = [of_nat (a * 4 + b div 16), of_nat ((b mod 16) * 16 + c div 4)]"
| "base64_decode [a, b] = [of_nat (a * 4 + b div 16)]"
| "base64_decode [a] = []"
| "base64_decode [] = []"

definition atob :: "jsstring \<Rightarrow> js_error + jsstring" where
  "atob s =
     (let d = filter (\<lambda>c. \<not> ascii_whitespace c) s;
          d' = (if length d mod 4 = 0 then strip_padding d else d)
      in if length d' mod 4 = 1 then Inl InvalidCharacterError
         else case those (map b64val d') of
                None \<Rightarrow> Inl InvalidCharacterError
              | Some vs \<Rightarrow> Inr (map ucast (base64_decode vs)))"

text \<open>
  \<open>String.fromCharCode(...bytes)\<close> and \<open>Uint8Array.from(str, (c) => c.charCodeAt(0))\<close>:
  the second one keeps the low 8 bits of each code unit.
\<close>

definition fromCharCode :: "byte list \<Rightarrow> jsstring" where
  "fromCharCode bs = map ucast bs"

definition charCodes :: "jsstring \<Rightarrow> byte list" where
  "charCodes s = map ucast s"

subsection \<open>\<open>TextEncoder\<close> and \<open>TextDecoder\<close> (UTF-8)\<close>

definition is_high_surrogate :: "jschar \<Rightarrow> bool" where
  "is_high_surrogate u = (0xD800 \<le> unat u \<and> unat u \<le> 0xDBFF)"

definition is_low_surrogate :: "jschar \<Rightarrow> bool" where
  "is_low_surrogate u = (0xDC00 \<le> unat u \<and> unat u \<le> 0xDFFF)"

text \<open>
  The code points of a string as \<open>TextEncoder\<close> reads it: a surrogate pair is one code
  point, an unpaired surrogate becomes U+FFFD.
\<close>

fun code_points :: "jsstring \<Rightarrow> nat list" where
  "code_points (u # v # rest) =
     (if is_high_surrogate u \<and> is_low_surrogate v
      then (0x10000 + (unat u - 0xD800) * 0x400 + (unat v - 0xDC00)) # code_points rest
      else (if is_high_surrogate u \<or> is_low_surrogate u then 0xFFFD else unat u)
             # code_points (v # rest))"
| "code_points [u] = [if is_high_surrogate u \<or> is_low_surrogate u then 0xFFFD else unat u]"
| "code_points [] = []"

definition utf8_bytes :: "nat \<Rightarrow> byte list" where
  "utf8_bytes cp =
     (if cp < 0x80 then [of_nat cp]
      else if cp < 0x800 then [of_nat (0xC0 + cp div 64), of_nat (0x80 + cp mod 64)]
      else if cp < 0x10000
      then [of_nat (0xE0 + cp div 4096), of_nat (0x80 + cp div 64 mod 64),
            of_nat (0x80 + cp mod 64)]
      else [of_nat (0xF0 + cp div 262144), of_nat (0x80 + cp div 4096 mod 64),
            of_nat (0x80 + cp div 64 mod 64), of_nat (0x80 + cp mod 64)])"

definition TextEncoder_encode :: "jsstring \<Rightarrow> byte list" where
  "TextEncoder_encode s = concat (map utf8_bytes (code_points s))"

text \<open>
  The UTF-8 decoder of the WHATWG Encoding standard, as a state machine over the bytes:
  the code point being built, the bytes seen and needed, and the bounds of the next
  continuation byte. A byte that cannot continue a sequence ends it with U+FFFD and is
  read again from the initial state; an unfinished sequence at the end gives U+FFFD.
\<close>

function utf8_decode :: "nat \<Rightarrow> nat \<Rightarrow> nat \<Rightarrow> nat \<Rightarrow> nat \<Rightarrow> byte list \<Rightarrow> nat list" where
  "utf8_decode cp seen needed lower upper [] = (if needed \<noteq> 0 then [0xFFFD] else [])"
| "utf8_decode cp seen needed lower upper (b # bs) =
     (if needed = 0 then
        if unat b \<le> 0x7F then unat b # utf8_decode 0 0 0 0x80 0xBF bs
        else if 0xC2 \<le> unat b \<and> unat b \<le> 0xDF
        then utf8_decode (unat b mod 32) 0 1 0x80 0xBF bs
        else if 0xE0 \<le> unat b \<and> unat b \<le> 0xEF
        then utf8_decode (unat b mod 16) 0 2 (if unat b = 0xE0 then 0xA0 else 0x80)
               (if unat b = 0xED then 0x9F else 0xBF) bs
        else if 0xF0 \<le> unat b \<and> unat b \<le> 0xF4
        then utf8_decode (unat b mod 8) 0 3 (if unat b = 0xF0 then 0x90 else 0x80)
               (if unat b = 0xF4 then 0x8F else 0xBF) bs
        else 0xFFFD # utf8_decode 0 0 0 0x80 0xBF bs
      else if unat b < lower \<or> upper < unat b
      then 0xFFFD # utf8_decode 0 0 0 0x80 0xBF (b # bs)
      else if seen + 1 \<noteq> needed
      then utf8_decode (cp * 64 + unat b mod 64) (seen + 1) needed 0x80 0xBF bs
      else (cp * 64 + unat b mod 64) # utf8_decode 0 0 0 0x80 0xBF bs)"
  by pat_completeness auto
termination
  by (relation "measure (\<lambda>(cp, seen, needed, lower, upper, bs).
        2 * length bs + (if needed = 0 then 0 else 1))") auto

definition utf16_units :: "nat \<Rightarrow> jsstring" where
  "utf16_units cp =
     (if cp < 0x10000 then [of_nat cp]
      else [of_nat (0xD800 + (cp - 0x10000) div 0x400),
            of_nat (0xDC00 + (cp - 0x10000) mod 0x400)])"

text \<open>
  \<open>new TextDecoder().decode(bytes)\<close>: UTF-8, not fatal, and \<open>ignoreBOM\<close> false, so a
  first code point U+FEFF is dropped.
\<close>

definition TextDecoder_decode :: "byte list \<Rightarrow> jsstring" where
  "TextDecoder_decode bytes =
     (let cps = utf8_decode 0 0 0 0x80 0xBF bytes;
          cps' = (case cps of c # r \<Rightarrow> if c = 0xFEFF then r else cps | [] \<Rightarrow> [])
      in concat (map utf16_units cps'))"

subsection \<open>Cryptography and JSON\<close>

record poe_model =
  model_id :: jsstring
  model_name :: jsstring

record poe_session_user =
  userHash :: jsstring
  keyLast4 :: jsstring
  models :: "poe_model list"
  createdAt :: int

text \<open>
  The primitives of \<open>crypto.subtle\<close> and the \<open>JSON\<close> object are parameters of the model:
  HMAC-SHA256 (key, data), SHA-256, AES-GCM encryption and decryption (key, iv, text;
  decryption is \<open>None\<close> when it rejects), and \<open>JSON.stringify\<close> and \<open>JSON.parse\<close> at the
  type \<open>PoeSessionUser\<close> (\<open>None\<close> when parsing throws). The last one is the
  largest number of arguments the engine accepts in a call: a spread of more elements
  throws RangeError.
\<close>

record platform =
  hmac_sha256 :: "byte list \<Rightarrow> byte list \<Rightarrow> byte list"
  sha256 :: "byte list \<Rightarrow> byte list"
  aes_gcm_encrypt :: "byte list \<Rightarrow> byte list \<Rightarrow> byte list \<Rightarrow> byte list"
  aes_gcm_decrypt :: "byte list \<Rightarrow> byte list \<Rightarrow> byte list \<Rightarrow> byte list option"
  JSON_stringify :: "poe_session_user \<Rightarrow> jsstring"
  JSON_parse :: "jsstring \<Rightarrow> poe_session_user option"
  argument_limit :: nat

section \<open>Session module (src/auth/session.ts)\<close>

definition SESSION_MAX_AGE_MS :: int where
  "SESSION_MAX_AGE_MS = 24 * 60 * 60 * 1000"

definition hex_digit :: "nat \<Rightarrow> jschar" where
  "hex_digit n = of_nat (if n < 10 then 48 + n else 87 + n)"

text \<open>\<^verbatim>\<open>hashApiKey\<close>, lines 8-14: the digest in lower-case hexadecimal.\<close>

definition hashApiKey :: "platform \<Rightarrow> jsstring \<Rightarrow> jsstring" where
  "hashApiKey P apiKey =
     concat (map (\<lambda>b. [hex_digit (unat b div 16), hex_digit (unat b mod 16)])
               (sha256 P (TextEncoder_encode apiKey)))"

text \<open>
  \<^verbatim>\<open>deriveHmacKey\<close>, lines 19-25. \<open>importKey\<close> throws DataError for an HMAC key of
  length zero.
\<close>

definition deriveHmacKey :: "jsstring \<Rightarrow> js_error + byte list" where
  "deriveHmacKey secret =
     (let keyData = TextEncoder_encode secret
      in if keyData = [] then Inl DataError else Inr keyData)"

text \<open>\<^verbatim>\<open>createSessionToken\<close>, lines 30-37.\<close>

definition createSessionToken :: "platform \<Rightarrow> poe_session_user \<Rightarrow> jsstring \<Rightarrow> js_error + jsstring" where
  "createSessionToken P payload secret =
     (let payloadStr = JSON_stringify P payload
      in case btoa payloadStr of
           Inl e \<Rightarrow> Inl e
         | Inr payloadB64 \<Rightarrow>
             (case deriveHmacKey secret of
                Inl e \<Rightarrow> Inl e
              | Inr key \<Rightarrow>
                  (let sig = hmac_sha256 P key (TextEncoder_encode payloadB64)
                   in case btoa (fromCharCode sig) of
                        Inl e \<Rightarrow> Inl e
                      | Inr sigB64 \<Rightarrow> Inr (payloadB64 @ js ''.'' @ sigB64))))"

text \<open>\<open>String.prototype.split\<close> with a one-character separator.\<close>

primrec js_split :: "jschar \<Rightarrow> jsstring \<Rightarrow> jsstring list" where
  "js_split sep [] = [[]]"
| "js_split sep (c # cs) =
     (if c = sep then [] # js_split sep cs
      else case js_split sep cs of x # xs \<Rightarrow> (c # x) # xs | [] \<Rightarrow> [[c]])"

text \<open>
  \<^verbatim>\<open>verifySessionToken\<close>, lines 43-72. Every exception inside the \<open>try\<close> gives \<open>null\<close>,
  here \<open>None\<close>. \<open>crypto.subtle.verify\<close> compares the given signature with the HMAC of the
  data.
\<close>

definition verifySessionToken :: "platform \<Rightarrow> int \<Rightarrow> jsstring \<Rightarrow> jsstring \<Rightarrow> poe_session_user option" where
  "verifySessionToken P now token secret =
     (case js_split 0x2E token of
        payloadB64 # sigB64 # _ \<Rightarrow>
          if payloadB64 = [] \<or> sigB64 = [] then None
          else (case deriveHmacKey secret of
                  Inl _ \<Rightarrow> None
                | Inr key \<Rightarrow>
                    (case atob sigB64 of
                       Inl _ \<Rightarrow> None
                     | Inr sigStr \<Rightarrow>
                         if charCodes sigStr \<noteq> hmac_sha256 P key (TextEncoder_encode payloadB64)
                         then None
                         else (case atob payloadB64 of
                                 Inl _ \<Rightarrow> None
                               | Inr payloadStr \<Rightarrow>
                                   (case JSON_parse P payloadStr of
                                      None \<Rightarrow> None
                                    | Some payload \<Rightarrow>
                                        if now - createdAt payload > SESSION_MAX_AGE_MS
                                        then None else Some payload))))
      | _ \<Rightarrow> None)"

text \<open>
  The AES key of both \<^verbatim>\<open>encryptApiKey\<close> and \<^verbatim>\<open>decryptApiKey\<close> (lines 79-80 and
  100-101): the secret padded with \<open>0\<close> to 32 code units and cut to 32, in UTF-8.
  \<open>importKey\<close> throws DataError unless the key has 128, 192 or 256 bits.
\<close>

definition padEnd :: "nat \<Rightarrow> jschar \<Rightarrow> jsstring \<Rightarrow> jsstring" where
  "padEnd n c s = s @ replicate (n - length s) c"

definition aesKeyData :: "jsstring \<Rightarrow> js_error + byte list" where
  "aesKeyData secret =
     (let keyData = TextEncoder_encode (take 32 (padEnd 32 0x30 secret))
      in if length keyData = 16 \<or> length keyData = 24 \<or> length keyData = 32
         then Inr keyData else Inl DataError)"

text \<open>
  \<^verbatim>\<open>encryptApiKey\<close>, lines 78-94. The 12 random bytes of \<open>crypto.getRandomValues\<close> are
  the argument \<open>iv\<close>. In line 93 every byte of \<open>combined\<close> is an argument of
  \<open>String.fromCharCode\<close>, so the call throws RangeError when there are more bytes than
  the engine accepts arguments. (The same call in line 35 has the 32 bytes of a
  signature.)
\<close>

definition encryptApiKey :: "platform \<Rightarrow> byte list \<Rightarrow> jsstring \<Rightarrow> jsstring \<Rightarrow> js_error + jsstring" where
  "encryptApiKey P iv apiKey secret =
     (case aesKeyData secret of
        Inl e \<Rightarrow> Inl e
      | Inr cryptoKey \<Rightarrow>
          (let ciphertext = aes_gcm_encrypt P cryptoKey iv (TextEncoder_encode apiKey);
               combined = iv @ ciphertext
           in if length combined > argument_limit P then Inl RangeError
              else btoa (fromCharCode combined)))"

text \<open>\<^verbatim>\<open>decryptApiKey\<close>, lines 99-109.\<close>

definition decryptApiKey :: "platform \<Rightarrow> jsstring \<Rightarrow> jsstring \<Rightarrow> js_error + jsstring" where
  "decryptApiKey P encrypted secret =
     (case aesKeyData secret of
        Inl e \<Rightarrow> Inl e
      | Inr cryptoKey \<Rightarrow>
          (case atob encrypted of
             Inl e \<Rightarrow> Inl e
           | Inr s \<Rightarrow>
               (let combined = charCodes s;
                    iv = take 12 combined;
                    ciphertext = drop 12 combined
                in case aes_gcm_decrypt P cryptoKey iv ciphertext of
                     None \<Rightarrow> Inl OperationError
                   | Some plaintext \<Rightarrow> Inr (TextDecoder_decode plaintext))))"

text \<open>\<^verbatim>\<open>buildSessionCookie\<close> and \<^verbatim>\<open>clearSessionCookie\<close>, lines 114-123.\<close>

definition buildSessionCookie :: "jsstring \<Rightarrow> jsstring" where
  "buildSessionCookie token =
     js ''poeclaw_session='' @ token
       @ js ''; HttpOnly; Secure; SameSite=Lax; Max-Age=86400; Path=/''"

definition clearSessionCookie :: jsstring where
  "clearSessionCookie = js ''poeclaw_session=; HttpOnly; Secure; SameSite=Lax; Max-Age=0; Path=/''"

text \<open>
  \<^verbatim>\<open>extractSessionToken\<close>, lines 128-132. \<open>session_cookie_match\<close> is
  \<^verbatim>\<open>cookieHeader.match(/poeclaw_session=([^;]+)/)\<close>: the leftmost position where the
  literal is followed by at least one code unit other than \<open>;\<close>, and the longest run of
  such code units there. An undefined or empty header is falsy.
\<close>

fun session_cookie_match :: "jsstring \<Rightarrow> jsstring option" where
  "session_cookie_match [] = None"
| "session_cookie_match (c # cs) =
     (let group1 = takeWhile (\<lambda>x. x \<noteq> 0x3B) (drop 16 (c # cs))
      in if prefix (js ''poeclaw_session='') (c # cs) \<and> group1 \<noteq> []
         then Some group1 else session_cookie_match cs)"

definition extractSessionToken :: "jsstring option \<Rightarrow> jsstring option" where
  "extractSessionToken cookieHeader =
     (case cookieHeader of
        None \<Rightarrow> None
      | Some h \<Rightarrow> if h = [] then None else session_cookie_match h)"

section \<open>Requests, responses and the environment\<close>

record env =
  DEV_MODE :: "jsstring option"
  SESSION_SECRET :: "jsstring option"
  ENCRYPTION_SECRET :: "jsstring option"

record request =
  Cookie :: "jsstring option"
  Accept :: "jsstring option"
  CF_Connecting_IP :: "jsstring option"
  X_Forwarded_For :: "jsstring option"

text \<open>The JSON and text bodies the handlers below produce.\<close>

datatype body =
    Json_authenticated_false
  | Json_authenticated_true jsstring jsstring "poe_model list"
  | Json_error jsstring
  | Json_error_hint jsstring jsstring
  | Json_login_ok jsstring jsstring "poe_model list option"
  | Text jsstring

record response =
  status :: nat
  body :: body
  set_cookie :: "jsstring option"

definition json :: "body \<Rightarrow> nat \<Rightarrow> response" where
  "json b st = \<lparr>status = st, body = b, set_cookie = None\<rparr>"

text \<open>A value of type \<open>string | undefined\<close> is falsy when undefined or empty.\<close>

definition falsy :: "jsstring option \<Rightarrow> bool" where
  "falsy v = (v = None \<or> v = Some [])"

section \<open>Auth routes (src/routes/auth.ts)\<close>

text \<open>
  \<^verbatim>\<open>auth.get('/me', ...)\<close>, lines 120-143. The handler does not read \<open>DEV_MODE\<close>.
\<close>

definition auth_me :: "platform \<Rightarrow> int \<Rightarrow> env \<Rightarrow> request \<Rightarrow> response" where
  "auth_me P now e req =
     (case SESSION_SECRET e of
        None \<Rightarrow> json Json_authenticated_false 401
      | Some sessionSecret \<Rightarrow>
          if sessionSecret = [] then json Json_authenticated_false 401
          else (case extractSessionToken (Cookie req) of
                  None \<Rightarrow> json Json_authenticated_false 401
                | Some token \<Rightarrow>
                    if token = [] then json Json_authenticated_false 401
                    else (case verifySessionToken P now token sessionSecret of
                            None \<Rightarrow> json Json_authenticated_false 401
                          | Some poeUser \<Rightarrow>
                              json (Json_authenticated_true (userHash poeUser)
                                      (keyLast4 poeUser) (models poeUser)) 200)))"

text \<open>
  The result of the awaited \<^verbatim>\<open>validatePoeApiKey(apiKey)\<close>, which asks the Poe API.
\<close>

record poe_validation_result =
  valid :: bool
  validation_models :: "poe_model list option"
  validation_error :: "jsstring option"

text \<open>
  What the login handler receives besides the request: the \<open>apiKey\<close> field of the parsed
  body (undefined when the body does not parse), the validator, the second reading of
  \<open>Date.now()\<close>, the random IV, and whether \<open>sandbox.exec\<close> resolves.
\<close>

record login_input =
  apiKey_field :: "jsstring option"
  validatePoeApiKey :: "jsstring \<Rightarrow> poe_validation_result"
  created_now :: int
  random_iv :: "byte list"
  exec_resolves :: bool

text \<open>\<open>String.prototype.trim\<close>: white space and line terminators of ECMAScript.\<close>

definition js_whitespace :: "jschar \<Rightarrow> bool" where
  "js_whitespace c =
     (c \<in> {0x9, 0xA, 0xB, 0xC, 0xD, 0x20, 0xA0, 0x1680, 0x2028, 0x2029, 0x202F, 0x205F,
            0x3000, 0xFEFF} \<or> (0x2000 \<le> c \<and> c \<le> 0x200A))"

definition js_trim :: "jsstring \<Rightarrow> jsstring" where
  "js_trim s = rev (dropWhile js_whitespace (rev (dropWhile js_whitespace s)))"

definition login_command :: "jsstring \<Rightarrow> jsstring" where
  "login_command encryptedKey =
     js ''mkdir -p /tmp/poeclaw && echo '' @ [0x27] @ encryptedKey @ [0x27]
       @ js '' > /tmp/poeclaw/encrypted-key''"

definition internal_server_error :: response where
  "internal_server_error =
     \<lparr>status = 500, body = Text (js ''Internal Server Error''), set_cookie = None\<rparr>"

text \<open>
  \<^verbatim>\<open>auth.post('/login', ...)\<close>, lines 44-108, after the rate limit check. The result is
  the response and the command given to \<open>sandbox.exec\<close>, if the handler gets that far.
  An exception that leaves the handler is answered by the framework with status 500.
\<close>

definition login_after_rate_limit ::
  "platform \<Rightarrow> env \<Rightarrow> login_input \<Rightarrow> response \<times> jsstring option" where
  "login_after_rate_limit P e inp =
     (case map_option js_trim (apiKey_field inp) of
        None \<Rightarrow> (json (Json_error (js ''API key is required'')) 400, None)
      | Some apiKey \<Rightarrow>
          if apiKey = [] then (json (Json_error (js ''API key is required'')) 400, None)
          else (let validation = validatePoeApiKey inp apiKey in
            if \<not> valid validation
            then (json (Json_error (if falsy (validation_error validation)
                                     then js ''Invalid API key''
                                     else the (validation_error validation))) 401, None)
            else if falsy (SESSION_SECRET e) \<or> falsy (ENCRYPTION_SECRET e)
            then (json (Json_error (js ''Server configuration error'')) 500, None)
            else (let sessionSecret = the (SESSION_SECRET e);
                      encryptionSecret = the (ENCRYPTION_SECRET e);
                      userHash = hashApiKey P apiKey;
                      keyLast4 = drop (length apiKey - 4) apiKey;
                      sessionPayload = \<lparr>userHash = userHash, keyLast4 = keyLast4,
                         models = (case validation_models validation of
                                     None \<Rightarrow> [] | Some ms \<Rightarrow> ms),
                         createdAt = created_now inp\<rparr>
                  in case createSessionToken P sessionPayload sessionSecret of
                       Inl _ \<Rightarrow> (internal_server_error, None)
                     | Inr token \<Rightarrow>
                         (case encryptApiKey P (random_iv inp) apiKey encryptionSecret of
                            Inl _ \<Rightarrow> (internal_server_error, None)
                          | Inr encryptedKey \<Rightarrow>
                              if \<not> exec_resolves inp
                              then (internal_server_error, Some (login_command encryptedKey))
                              else (\<lparr>status = 200,
                                      body = Json_login_ok userHash keyLast4
                                               (validation_models validation),
                                      set_cookie = Some (buildSessionCookie token)\<rparr>,
                                    Some (login_command encryptedKey))))))"



section \<open>Session middleware (src/index.ts)\<close>

text \<open>
  The middleware either answers the request or passes it on with the sandbox identifier
  and, outside development mode, the session user.
\<close>

datatype mw_result = Respond response | Next jsstring "poe_session_user option"

definition acceptsHtml :: "request \<Rightarrow> bool" where
  "acceptsHtml req =
     (case Accept req of None \<Rightarrow> False | Some a \<Rightarrow> js_includes a (js ''text/html''))"

text \<open>
  Lines 113-122 and 129-138: for a request that accepts HTML the response of
  \<open>ASSETS.fetch\<close> for \<open>/index.html\<close>, or a 500 text when that throws (\<open>None\<close>).
\<close>

definition spa_shell :: "response option \<Rightarrow> response" where
  "spa_shell assets =
     (case assets of
        Some r \<Rightarrow> r
      | None \<Rightarrow> \<lparr>status = 500, body = Text (js ''SPA not available. Run: make build''),
                  set_cookie = None\<rparr>)"

text \<open>\<^verbatim>\<open>app.use('*', ...)\<close>, lines 93-149.\<close>

definition session_middleware ::
  "platform \<Rightarrow> int \<Rightarrow> env \<Rightarrow> response option \<Rightarrow> request \<Rightarrow> mw_result" where
  "session_middleware P now e assets req =
     (if DEV_MODE e = Some (js ''true'') then Next (js ''dev-user'') None
      else if falsy (SESSION_SECRET e)
      then Respond (json (Json_error (js ''Server not configured (missing SESSION_SECRET)'')) 500)
      else (let sessionSecret = the (SESSION_SECRET e);
                token = extractSessionToken (Cookie req)
            in if falsy token
               then (if acceptsHtml req then Respond (spa_shell assets)
                     else Respond (json (Json_error_hint (js ''Authentication required'')
                                           (js ''POST /api/auth/login'')) 401))
               else (case verifySessionToken P now (the token) sessionSecret of
                       None \<Rightarrow>
                         if acceptsHtml req then Respond (spa_shell assets)
                         else Respond (json (Json_error (js ''Session expired or invalid'')) 401)
                     | Some poeUser \<Rightarrow> Next (userHash poeUser) (Some poeUser))))"

section \<open>Sequences of login requests\<close>



section \<open>A small concrete platform\<close>

text \<open>
  Stand-ins for the platform's primitives, simple enough to evaluate, on which the
  assumptions made about the real primitives can be checked: a 32-byte tag that holds the
  length of the data, the data when they are shorter than 32 bytes, and a checksum of the
  key; a cipher that appends a 16-byte tag taken from the key; a serialisation of a
  session as \<open>userHash|keyLast4|createdAt\<close> in decimal; and a limit of 65535 arguments.
\<close>

definition demo_mac :: "byte list \<Rightarrow> byte list \<Rightarrow> byte list" where
  "demo_mac key data =
     (if length data < 32
      then of_nat (length data) # data
             @ replicate (31 - length data) (of_nat (sum_list (map unat key) mod 256))
      else replicate 32 0xFF)"

definition demo_encrypt :: "byte list \<Rightarrow> byte list \<Rightarrow> byte list \<Rightarrow> byte list" where
  "demo_encrypt key iv pt = pt @ take 16 key"

definition demo_decrypt :: "byte list \<Rightarrow> byte list \<Rightarrow> byte list \<Rightarrow> byte list option" where
  "demo_decrypt key iv ct =
     (if 16 \<le> length ct \<and> drop (length ct - 16) ct = take 16 key
      then Some (take (length ct - 16) ct) else None)"

fun decimal :: "nat \<Rightarrow> jsstring" where
  "decimal n = (if n < 10 then [of_nat (48 + n)]
                else decimal (n div 10) @ [of_nat (48 + n mod 10)])"

definition demo_stringify :: "poe_session_user \<Rightarrow> jsstring" where
  "demo_stringify p =
     userHash p @ [0x7C] @ keyLast4 p @ [0x7C] @ decimal (nat (createdAt p))"

definition demo_parse :: "jsstring \<Rightarrow> poe_session_user option" where
  "demo_parse s =
     (case js_split 0x7C s of
        [h, k, t] \<Rightarrow>
          if t \<noteq> [] \<and> list_all (\<lambda>c. 48 \<le> c \<and> c \<le> 57) t
          then Some \<lparr>userHash = h, keyLast4 = k, models = [],
                     createdAt = int (foldl (\<lambda>a c. 10 * a + (unat c - 48)) 0 t)\<rparr>
          else None
      | _ \<Rightarrow> None)"

definition demo_platform :: platform where
  "demo_platform =
     \<lparr>hmac_sha256 = demo_mac, sha256 = demo_mac [],
      aes_gcm_encrypt = demo_encrypt, aes_gcm_decrypt = demo_decrypt,
      JSON_stringify = demo_stringify, JSON_parse = demo_parse,
      argument_limit = 65535\<rparr>"

section \<open>Notions used to state the properties\<close>

text \<open>
  The cookie of a given name in a Cookie header, read as the specification describes it:
  the header is a list of \<open>name=value\<close> pairs separated by semicolons, a pair may be
  preceded by spaces, and the name ends at the first \<open>=\<close>.
\<close>

definition cookie_pairs :: "jsstring \<Rightarrow> (jsstring \<times> jsstring) list" where
  "cookie_pairs h =
     map (\<lambda>seg. let s = dropWhile (\<lambda>c. c = 0x20) seg
                in (takeWhile (\<lambda>c. c \<noteq> 0x3D) s, drop 1 (dropWhile (\<lambda>c. c \<noteq> 0x3D) s)))
         (js_split 0x3B h)"

definition named_cookie :: "jsstring \<Rightarrow> jsstring \<Rightarrow> jsstring option" where
  "named_cookie name h = map_of (cookie_pairs h) name"

text \<open>
  The session cookie of a request: the value of the cookie named \<open>poeclaw_session\<close>,
  when there is one and its value is not empty.
\<close>

definition session_cookie :: "request \<Rightarrow> jsstring option" where
  "session_cookie req =
     (case Cookie req of
        None \<Rightarrow> None
      | Some h \<Rightarrow>
          (case named_cookie (js ''poeclaw_session'') h of
             None \<Rightarrow> None
           | Some v \<Rightarrow> if v = [] then None else Some v))"

text \<open>The payload segment of a token: what precedes its first dot.\<close>

definition payload_segment :: "jsstring \<Rightarrow> jsstring" where
  "payload_segment token = takeWhile (\<lambda>c. c \<noteq> 0x2E) token"

text \<open>
  The signature check of \<^verbatim>\<open>verifySessionToken\<close> on its own (lines 48-59): the second
  segment of the token decodes to the HMAC, under the secret, of the first segment.
\<close>

definition signature_verifies :: "platform \<Rightarrow> jsstring \<Rightarrow> jsstring \<Rightarrow> bool" where
  "signature_verifies P secret token =
     (case js_split 0x2E token of
        payloadB64 # sigB64 # _ \<Rightarrow>
          (case atob sigB64 of
             Inl _ \<Rightarrow> False
           | Inr sigStr \<Rightarrow>
               charCodes sigStr
                 = hmac_sha256 P (TextEncoder_encode secret) (TextEncoder_encode payloadB64))
      | _ \<Rightarrow> False)"

text \<open>
  The session a request carries, if any: the extracted token, verified under the
  configured secret.
\<close>

definition request_session :: "platform \<Rightarrow> int \<Rightarrow> env \<Rightarrow> request \<Rightarrow> poe_session_user option" where
  "request_session P now e req =
     (case (SESSION_SECRET e, extractSessionToken (Cookie req)) of
        (Some secret, Some token) \<Rightarrow>
          if secret = [] then None else verifySessionToken P now token secret
      | _ \<Rightarrow> None)"

text \<open>
  Unicode scalar values, and the strings in which every surrogate is part of a pair.
\<close>

definition scalar_value :: "nat \<Rightarrow> bool" where
  "scalar_value cp = (cp < 0x110000 \<and> \<not> (0xD800 \<le> cp \<and> cp \<le> 0xDFFF))"

fun well_formed_utf16 :: "jsstring \<Rightarrow> bool" where
  "well_formed_utf16 (u # v # rest) =
     (if is_high_surrogate u then is_low_surrogate v \<and> well_formed_utf16 rest
      else \<not> is_low_surrogate u \<and> well_formed_utf16 (v # rest))"
| "well_formed_utf16 [u] = (\<not> is_high_surrogate u \<and> \<not> is_low_surrogate u)"
| "well_formed_utf16 [] = True"

text \<open>
  The replacements of one character of a token that leave the bytes of its signature as
  they are: the last character replaced by a dot or by ASCII whitespace, and the last but
  one replaced by a base64 character with the same upper four bits.
\<close>

definition harmless_flip :: "jsstring \<Rightarrow> nat \<Rightarrow> jschar \<Rightarrow> bool" where
  "harmless_flip token i c =
     ((Suc i = length token \<and> (c = 0x2E \<or> ascii_whitespace c))
      \<or> (Suc (Suc i) = length token
          \<and> (case (b64val c, b64val (token ! i)) of
                (Some v, Some w) \<Rightarrow> v div 4 = w div 4
              | _ \<Rightarrow> False)))"

text \<open>The characters of standard base64: A-Z, a-z, 0-9, \<open>+\<close>, \<open>/\<close> and \<open>=\<close>.\<close>

definition base64_alphabet :: "jschar \<Rightarrow> bool" where
  "base64_alphabet c =
     ((65 \<le> unat c \<and> unat c \<le> 90) \<or> (97 \<le> unat c \<and> unat c \<le> 122)
      \<or> (48 \<le> unat c \<and> unat c \<le> 57) \<or> unat c = 43 \<or> unat c = 47 \<or> unat c = 61)"

text \<open>
  A single-quoted word of the POSIX shell: after the opening quote every character is
  literal up to the next single quote. The result is the literal and the text after the
  closing quote, or \<open>None\<close> when the quote is not closed.
\<close>

definition sh_single_quoted :: "jsstring \<Rightarrow> (jsstring \<times> jsstring) option" where
  "sh_single_quoted s =
     (case dropWhile (\<lambda>c. c \<noteq> 0x27) s of
        [] \<Rightarrow> None
      | _ # rest \<Rightarrow> Some (takeWhile (\<lambda>c. c \<noteq> 0x27) s, rest))"

text \<open>Concrete inputs used to instantiate the theorems below.\<close>

definition demo_env :: env where
  "demo_env = \<lparr>DEV_MODE = None, SESSION_SECRET = Some (js ''k''),
                ENCRYPTION_SECRET = Some (js ''s'')\<rparr>"

definition demo_request :: "jsstring option \<Rightarrow> request" where
  "demo_request cookie =
     \<lparr>Cookie = cookie, Accept = None, CF_Connecting_IP = Some (js ''10.99.99.99''),
      X_Forwarded_For = None\<rparr>"

definition demo_login_input :: login_input where
  "demo_login_input =
     \<lparr>apiKey_field = None,
      validatePoeApiKey = (\<lambda>k. \<lparr>valid = False, validation_models = None,
                                    validation_error = None\<rparr>),
      created_now = 0, random_iv = replicate 12 7, exec_resolves = True\<rparr>"

definition demo_user :: poe_session_user where
  "demo_user = \<lparr>userHash = js ''ab'', keyLast4 = js ''cd'', models = [], createdAt = 5\<rparr>"

text \<open>The value of \<open>createSessionToken demo_platform demo_user (js ''k'')\<close>.\<close>

definition demo_token :: jsstring where
  "demo_token = js ''YWJ8Y2R8NQ==.DFlXSjhZMlI4TlE9PWtra2tra2tra2tra2tra2tra2s=''"

text \<open>
  The value of \<open>encryptApiKey demo_platform (replicate 12 7) (js ''pb-key'') (js ''s'')\<close>.
\<close>

definition demo_blob :: jsstring where
  "demo_blob = js ''BwcHBwcHBwcHBwcHcGIta2V5czAwMDAwMDAwMDAwMDAwMA==''"

text \<open>
  The value of \<open>encryptApiKey demo_platform (replicate 12 7) [0xFEFF] (js ''s'')\<close>.
\<close>

definition demo_blob_bom :: jsstring where
  "demo_blob_bom = js ''BwcHBwcHBwcHBwcH77u/czAwMDAwMDAwMDAwMDAwMA==''"

section \<open>Evaluating the model on concrete inputs\<close>

lemma replicate_numeral: "replicate (numeral k) x = x # replicate (pred_numeral k) x"
  by (simp add: numeral_eq_Suc)

lemmas model_eval = js_def atob_def btoa_def b64val_def b64char_def base64_encode_def
  strip_padding_def ascii_whitespace_def deriveHmacKey_def TextEncoder_encode_def
  utf8_bytes_def is_high_surrogate_def is_low_surrogate_def charCodes_def fromCharCode_def
  SESSION_MAX_AGE_MS_def Let_def replicate_numeral

lemmas demo_eval = demo_platform_def demo_mac_def demo_parse_def demo_stringify_def
  demo_encrypt_def demo_decrypt_def demo_user_def demo_token_def demo_env_def
  demo_request_def demo_blob_def

section \<open>Splitting a string\<close>

lemma js_split_nonempty: "js_split sep s \<noteq> []"
  by (induction s) (auto split: list.splits)

lemma js_split_no_separator: "sep \<notin> set xs \<Longrightarrow> js_split sep xs = [xs]"
  by (induction xs) auto

lemma js_split_append:
  "sep \<notin> set xs \<Longrightarrow> js_split sep (xs @ sep # ys) = xs # js_split sep ys"
  by (induction xs) auto

section \<open>Base64: decoding an encoding\<close>

lemma unat_byte: "unat (b :: byte) < 256"
  using unsigned_less [of b, where 'a = nat] by simp

lemma sextet_first: "(a::nat) div 4 * 4 + (a mod 4 * 16 + b div 16) div 16 = a" if "b < 256"
proof -
  have "b div 16 < 16" using that by simp
  then have "(a mod 4 * 16 + b div 16) div 16 = a mod 4" by simp
  then show ?thesis by simp
qed

lemma sextet_second: "((a::nat) mod 4 * 16 + b div 16) mod 16 * 16 + (b mod 16 * 4 + c div 64) div 4 = b" if "b < 256" "c < 256"
proof -
  have "b div 16 < 16" using that by simp
  then have 1: "(a mod 4 * 16 + b div 16) mod 16 = b div 16" by simp
  have "c div 64 < 4" using that by simp
  then have 2: "(b mod 16 * 4 + c div 64) div 4 = b mod 16" by simp
  show ?thesis unfolding 1 2 by simp
qed

lemma sextet_third: "((b::nat) mod 16 * 4 + c div 64) mod 4 * 64 + c mod 64 = c" if "c < 256"
proof -
  have "c div 64 < 4" using that by simp
  then have 1: "(b mod 16 * 4 + c div 64) mod 4 = c div 64" by simp
  show ?thesis unfolding 1 by simp
qed

lemma sextet_second_pad: "((a::nat) mod 4 * 16 + b div 16) mod 16 * 16 + (b mod 16 * 4) div 4 = b" if "b < 256"
  using sextet_second [of b 0 a] that by simp

lemma sextet_first_pad: "(a::nat) div 4 * 4 + (a mod 4 * 16) div 16 = a"
  using sextet_first [of 0 a] by simp

lemma unat_b64char:
  "i < 64 \<Longrightarrow> unat (b64char i) =
     (if i < 26 then 65 + i else if i < 52 then 71 + i
      else if i < 62 then i - 4 else if i = 62 then 43 else 47)"
  by (simp add: b64char_def unat_of_nat)

lemma b64val_b64char: "i < 64 \<Longrightarrow> b64val (b64char i) = Some i"
  by (auto simp: b64val_def unat_b64char Let_def)

lemma b64char_not_pad: "i < 64 \<Longrightarrow> b64char i \<noteq> 61"
proof
  assume "i < 64" "b64char i = 61"
  then have "unat (b64char i) = 61" by simp
  with \<open>i < 64\<close> show False by (auto simp: unat_b64char split: if_splits)
qed

lemma b64char_not_whitespace: "i < 64 \<Longrightarrow> \<not> ascii_whitespace (b64char i)"
proof
  assume "i < 64" "ascii_whitespace (b64char i)"
  then have "unat (b64char i) \<in> {9, 10, 12, 13, 32}"
    by (auto simp: ascii_whitespace_def)
  with \<open>i < 64\<close> show False by (auto simp: unat_b64char split: if_splits)
qed

lemma sextet_bounds:
  "unat (a :: byte) div 4 < 64" "unat a mod 4 * 16 + unat (b :: byte) div 16 < 64"
  "unat b mod 16 * 4 + unat (c :: byte) div 64 < 64" "unat c mod 64 < 64"
  "unat a mod 4 * 16 < 64" "unat b mod 16 * 4 < 64"
proof -
  have "unat a < 256" "unat b < 256" "unat c < 256" by (rule unat_byte)+
  then have "unat a div 4 < 64" "unat b div 16 < 16" "unat c div 64 < 4" by simp_all
  moreover have "unat a mod 4 < 4" "unat b mod 16 < 16" by simp_all
  ultimately show "unat a div 4 < 64" "unat a mod 4 * 16 + unat b div 16 < 64"
  "unat b mod 16 * 4 + unat c div 64 < 64" "unat c mod 64 < 64"
  "unat a mod 4 * 16 < 64" "unat b mod 16 * 4 < 64" by linarith+
qed

lemma sextets_bound: "x \<in> set (sextets bs) \<Longrightarrow> x < 64"
  by (induction bs arbitrary: x rule: sextets.induct) (auto simp: sextet_bounds)

lemma base64_decode_sextets: "base64_decode (sextets bs) = bs"
proof (induction bs rule: sextets.induct)
  case (1 a b c rest)
  have "base64_decode (sextets (a # b # c # rest)) =
      [of_nat (unat a), of_nat (unat b), of_nat (unat c)] @ base64_decode (sextets rest)"
    by (simp only: sextets.simps base64_decode.simps append.simps sextet_first sextet_second sextet_third unat_byte)
  with 1 show ?case by simp
next
  case (2 a b)
  have "base64_decode (sextets [a, b]) = [of_nat (unat a), of_nat (unat b)]"
    by (simp only: sextets.simps base64_decode.simps sextet_first sextet_second_pad unat_byte)
  then show ?case by simp
next
  case (3 a)
  have "base64_decode (sextets [a]) = [of_nat (unat a)]"
    by (simp only: sextets.simps base64_decode.simps sextet_first_pad)
  then show ?case by simp
next
  case 4
  show ?case by simp
qed

lemma length_sextets: "length (sextets bs) = (4 * length bs + 2) div 3"
  by (induction bs rule: sextets.induct) auto

lemma ucast_byte_roundtrip: "ucast (ucast (b :: byte) :: jschar) = b"
proof -
  have "unat b < 2 ^ 16" using unat_byte [of b] by simp
  then show ?thesis
    by (simp add: word_unat_eq_iff unsigned_ucast_eq unsigned_take_bit_eq take_bit_nat_eq_self)
qed
lemma ucast_latin1_roundtrip: "u \<le> 255 \<Longrightarrow> ucast (ucast (u :: jschar) :: byte) = u"
proof -
  assume "u \<le> 255"
  then have "unat u < 2 ^ 8" by (simp add: word_le_nat_alt)
  then show ?thesis
    by (simp add: word_unat_eq_iff unsigned_ucast_eq unsigned_take_bit_eq take_bit_nat_eq_self)
qed


lemma charCodes_fromCharCode: "charCodes (fromCharCode bs) = bs"
  by (simp add: charCodes_def fromCharCode_def ucast_byte_roundtrip map_idI)

lemma fromCharCode_charCodes:
  "\<not> list_ex (\<lambda>u. u > 255) s \<Longrightarrow> fromCharCode (charCodes s) = s"
proof -
  assume "\<not> list_ex (\<lambda>u. u > 255) s"
  then have "\<And>u. u \<in> set s \<Longrightarrow> u \<le> 255" by (auto simp: list_ex_iff not_less)
  then have "map (\<lambda>u. ucast (ucast u :: byte)) s = s"
    by (intro map_idI) (rule ucast_latin1_roundtrip)
  then show ?thesis by (simp add: charCodes_def fromCharCode_def comp_def)
qed
lemma length_sextets_pad:
  "(length (sextets bs) + (3 - length bs mod 3) mod 3) mod 4 = 0
   \<and> length (sextets bs) mod 4 \<noteq> 1"
proof (induction bs rule: sextets.induct)
  case (1 a b c rest)
  have l3: "length (a # b # c # rest) mod 3 = length rest mod 3"
    using mod_add_self2 [of "length rest" 3] by simp
  have l4: "length (sextets (a # b # c # rest)) = length (sextets rest) + 4"
    by simp
  have m1: "(length (sextets rest) + 4 + k) mod 4 = (length (sextets rest) + k) mod 4" for k
    using mod_add_self2 [of "length (sextets rest) + k" 4] by (simp add: add.commute add.left_commute)
  have m2: "(length (sextets rest) + 4) mod 4 = length (sextets rest) mod 4"
    using mod_add_self2 [of "length (sextets rest)" 4] by simp
  show ?case unfolding l3 l4 m1 m2 using 1 by simp
qed simp_all

lemma strip_padding_append:
  "list_all (\<lambda>c. c \<noteq> 61) xs \<Longrightarrow> k \<le> 2 \<Longrightarrow> strip_padding (xs @ replicate k 61) = xs"
proof -
  assume xs: "list_all (\<lambda>c. c \<noteq> 61) xs" and "k \<le> 2"
  then consider "k = 0" | "k = 1" | "k = 2" by linarith
  then show ?thesis
  proof cases
    case 1
    show ?thesis
    proof (cases "rev xs")
      case Nil then show ?thesis using 1 by (simp add: strip_padding_def)
    next
      case (Cons a r)
      then have "a \<in> set xs" by (metis list.set_intros(1) set_rev)
      with xs have "a \<noteq> 61" by (simp add: list_all_iff)
      then show ?thesis using 1 Cons by (cases r) (simp_all add: strip_padding_def)
    qed
  next
    case 2
    show ?thesis
    proof (cases "rev xs")
      case Nil then show ?thesis using 2 by (simp add: strip_padding_def)
    next
      case (Cons a r)
      then have "a \<in> set xs" by (metis list.set_intros(1) set_rev)
      with xs have "a \<noteq> 61" by (simp add: list_all_iff)
      moreover have "xs = rev (a # r)" using Cons by (metis rev_rev_ident)
      ultimately show ?thesis using 2 Cons by (simp add: strip_padding_def)
    qed
  next
    case 3
    have "rev (xs @ replicate k 61) = 61 # 61 # rev xs" using 3 by (simp add: numeral_2_eq_2)
    then show ?thesis by (simp add: strip_padding_def)
  qed
qed

lemma those_map_inverse:
  "(\<And>x. x \<in> set l \<Longrightarrow> f (g x) = Some x) \<Longrightarrow> those (map f (map g l)) = Some l"
  by (induction l) simp_all

lemma length_base64_encode: "length (base64_encode bs) mod 4 = 0"
  using length_sextets_pad [of bs] by (simp add: base64_encode_def)

lemma length_sextets_mod: "length (sextets bs) mod 4 \<noteq> 1"
  using length_sextets_pad [of bs] by simp


lemma filter_base64_encode:
  "filter (\<lambda>c. \<not> ascii_whitespace c) (base64_encode bs) = base64_encode bs"
proof -
  have "\<not> ascii_whitespace c" if "c \<in> set (base64_encode bs)" for c
  proof -
    from that consider i where "i \<in> set (sextets bs)" "c = b64char i" | "c = 61"
      by (auto simp: base64_encode_def)
    then show ?thesis
    proof cases
      case 1 then show ?thesis by (simp add: b64char_not_whitespace sextets_bound)
    next
      case 2 then show ?thesis by (simp add: ascii_whitespace_def)
    qed
  qed
  then show ?thesis by (simp add: filter_id_conv)
qed

lemma atob_base64_encode: "atob (base64_encode bs) = Inr (fromCharCode bs)"
proof -
  let ?xs = "map b64char (sextets bs)"
  have nopad: "list_all (\<lambda>c. c \<noteq> 61) ?xs"
    by (simp add: list_all_iff b64char_not_pad sextets_bound)
  have strip: "strip_padding (base64_encode bs) = ?xs"
    unfolding base64_encode_def by (rule strip_padding_append [OF nopad]) simp
  have vals: "those (map b64val ?xs) = Some (sextets bs)"
    by (rule those_map_inverse) (simp add: b64val_b64char sextets_bound)
  have len: "length ?xs mod 4 \<noteq> 1"
    using length_sextets_mod [of bs] by simp
  show ?thesis
    unfolding atob_def filter_base64_encode Let_def
    by (simp only: length_base64_encode strip vals len base64_decode_sextets
        fromCharCode_def if_True if_False option.case refl)
qed

lemma atob_btoa: "btoa s = Inr t \<Longrightarrow> atob t = Inr s"
proof -
  assume "btoa s = Inr t"
  then have ok: "\<not> list_ex (\<lambda>u. u > 255) s" and t: "t = base64_encode (charCodes s)"
    by (auto simp: btoa_def charCodes_def split: if_splits)
  show ?thesis unfolding t atob_base64_encode using fromCharCode_charCodes [OF ok] by simp
qed


section \<open>The rate limiter within and after a window\<close>





section \<open>Close codes: what the relay transmits\<close>

lemma safeCloseCode_cases:
  "safeCloseCode c = (if c \<in> {1005, 1006} then 1011 else c)"
  by (simp add: safeCloseCode_def)

text \<open>
  C7. The claim is that no reserved close code is ever transmitted. Code 1015 is reserved
  by RFC 6455 in the same words as 1005 and 1006, and both close handlers pass it on
  unchanged.
\<close>

theorem safeCloseCode_passes_1015:
  "rfc6455_must_not_send 1015
   \<and> safeCloseCode 1015 = 1015
   \<and> fst (client_close_relay \<lparr>code = 1015, reason = []\<rparr>) = 1015
   \<and> fst (container_close_relay [] \<lparr>code = 1015, reason = []\<rparr>) = 1015"
  by (simp add: rfc6455_must_not_send_def safeCloseCode_def client_close_relay_def
      container_close_relay_def Let_def)

section \<open>Login attempts from one address\<close>



section \<open>Extracting the session cookie\<close>

text \<open>
  C8. The claim is that the value of the cookie named \<open>poeclaw_session\<close> is returned,
  and \<open>null\<close> when no cookie has exactly that name. The pattern is not anchored at the
  start of a cookie name: a header whose only cookie is named \<open>xpoeclaw_session\<close> gives
  that cookie's value, and when such a cookie precedes the session cookie, its value is
  returned in place of the session cookie's.
\<close>

theorem extractSessionToken_matches_suffix_name:
  "named_cookie (js ''poeclaw_session'') (js ''xpoeclaw_session=evil'') = None
   \<and> extractSessionToken (Some (js ''xpoeclaw_session=evil'')) = Some (js ''evil'')
   \<and> named_cookie (js ''poeclaw_session'') (js ''xpoeclaw_session=evil; poeclaw_session=good'')
       = Some (js ''good'')
   \<and> extractSessionToken (Some (js ''xpoeclaw_session=evil; poeclaw_session=good''))
       = Some (js ''evil'')"
  by (simp add: named_cookie_def cookie_pairs_def extractSessionToken_def js_def)

section \<open>What a verified token is\<close>

lemma verifySessionToken_sound:
  "verifySessionToken P now token secret = Some u \<Longrightarrow>
   signature_verifies P secret token \<and> now - createdAt u \<le> SESSION_MAX_AGE_MS"
  by (auto simp: verifySessionToken_def signature_verifies_def deriveHmacKey_def Let_def
      split: list.splits sum.splits option.splits if_splits)

lemma extractSessionToken_nonempty: "extractSessionToken h = Some t \<Longrightarrow> t \<noteq> []"
proof -
  have "session_cookie_match s = Some t \<Longrightarrow> t \<noteq> []" for s
    by (induction s) (auto simp: Let_def split: if_splits)
  then show "extractSessionToken h = Some t \<Longrightarrow> t \<noteq> []"
    by (auto simp: extractSessionToken_def split: option.splits if_splits)
qed

section \<open>The session check endpoint\<close>

lemma auth_me_request_session:
  "auth_me P now e req =
     (case request_session P now e req of
        Some u \<Rightarrow> json (Json_authenticated_true (userHash u) (keyLast4 u) (models u)) 200
      | None \<Rightarrow> json Json_authenticated_false 401)"
  by (auto simp: auth_me_def request_session_def split: option.splits
      dest: extractSessionToken_nonempty)

text \<open>
  The handler in terms of the token that \<^verbatim>\<open>extractSessionToken\<close> returns: it answers
  200 with \<open>authenticated: true\<close> and the fields of the session exactly when that token
  verifies under a non-empty \<open>SESSION_SECRET\<close>, which means that its signature is the HMAC
  of its payload segment and that it is not older than the maximal age; in every other
  case it answers 401 with \<open>authenticated: false\<close>. The value of \<open>DEV_MODE\<close> makes no
  difference.
\<close>

lemma auth_me_extracted_token:
  "((\<exists>secret token u.
        SESSION_SECRET e = Some secret \<and> secret \<noteq> []
        \<and> extractSessionToken (Cookie req) = Some token
        \<and> verifySessionToken P now token secret = Some u
        \<and> signature_verifies P secret token
        \<and> now - createdAt u \<le> SESSION_MAX_AGE_MS
        \<and> auth_me P now e req
            = json (Json_authenticated_true (userHash u) (keyLast4 u) (models u)) 200)
    \<or> ((\<nexists>secret token u.
            SESSION_SECRET e = Some secret \<and> secret \<noteq> []
            \<and> extractSessionToken (Cookie req) = Some token
            \<and> verifySessionToken P now token secret = Some u)
        \<and> auth_me P now e req = json Json_authenticated_false 401))
   \<and> auth_me P now (e\<lparr>DEV_MODE := d\<rparr>) req = auth_me P now e req"
proof (intro conjI)
  show "auth_me P now (e\<lparr>DEV_MODE := d\<rparr>) req = auth_me P now e req"
    by (simp add: auth_me_def)
next
  show "(\<exists>secret token u.
        SESSION_SECRET e = Some secret \<and> secret \<noteq> []
        \<and> extractSessionToken (Cookie req) = Some token
        \<and> verifySessionToken P now token secret = Some u
        \<and> signature_verifies P secret token
        \<and> now - createdAt u \<le> SESSION_MAX_AGE_MS
        \<and> auth_me P now e req
            = json (Json_authenticated_true (userHash u) (keyLast4 u) (models u)) 200)
    \<or> ((\<nexists>secret token u.
            SESSION_SECRET e = Some secret \<and> secret \<noteq> []
            \<and> extractSessionToken (Cookie req) = Some token
            \<and> verifySessionToken P now token secret = Some u)
        \<and> auth_me P now e req = json Json_authenticated_false 401)"
  proof (cases "request_session P now e req")
    case None
    then have "\<nexists>secret token u.
            SESSION_SECRET e = Some secret \<and> secret \<noteq> []
            \<and> extractSessionToken (Cookie req) = Some token
            \<and> verifySessionToken P now token secret = Some u"
      by (auto simp: request_session_def)
    moreover have "auth_me P now e req = json Json_authenticated_false 401"
      using None by (simp add: auth_me_request_session)
    ultimately show ?thesis by blast
  next
    case (Some u)
    then obtain secret token where st: "SESSION_SECRET e = Some secret" "secret \<noteq> []"
        "extractSessionToken (Cookie req) = Some token"
        "verifySessionToken P now token secret = Some u"
      by (auto simp: request_session_def split: option.splits if_splits)
    moreover note verifySessionToken_sound [OF st(4)]
    moreover have "auth_me P now e req
            = json (Json_authenticated_true (userHash u) (keyLast4 u) (models u)) 200"
      using Some by (simp add: auth_me_request_session)
    ultimately show ?thesis by blast
  qed
qed

lemma auth_me_extracted_token_demo:
  "auth_me demo_platform 7 (demo_env\<lparr>DEV_MODE := Some (js ''true'')\<rparr>)
      (demo_request (Some (js ''poeclaw_session='' @ demo_token)))
     = json (Json_authenticated_true (js ''ab'') (js ''cd'') []) 200
   \<and> auth_me demo_platform 7 (demo_env\<lparr>DEV_MODE := Some (js ''true'')\<rparr>) (demo_request None)
     = json Json_authenticated_false 401"
proof -
  have v: "verifySessionToken demo_platform 7 demo_token (js ''k'') = Some demo_user"
    by (simp add: verifySessionToken_def model_eval demo_eval)
  have x: "extractSessionToken (Some (js ''poeclaw_session='' @ demo_token)) = Some demo_token"
    by (simp add: extractSessionToken_def model_eval demo_eval)
  have s: "SESSION_SECRET demo_env = Some (js ''k'')" "js ''k'' \<noteq> []"
    by (simp_all add: model_eval demo_eval)
  have c: "Cookie (demo_request h) = h" for h by (simp add: demo_request_def)
  note inst = auth_me_extracted_token [of demo_env "demo_request (Some (js ''poeclaw_session='' @ demo_token))"
      demo_platform 7 "Some (js ''true'')"]
  note inst' = auth_me_extracted_token [of demo_env "demo_request None" demo_platform 7 "Some (js ''true'')"]
  have a: "auth_me demo_platform 7 demo_env
      (demo_request (Some (js ''poeclaw_session='' @ demo_token)))
     = json (Json_authenticated_true (js ''ab'') (js ''cd'') []) 200"
    using inst [THEN conjunct1] s v x by (auto simp: c demo_user_def)
  have b: "auth_me demo_platform 7 demo_env (demo_request None) = json Json_authenticated_false 401"
    using inst' [THEN conjunct1] by (auto simp: c extractSessionToken_def)
  show ?thesis
    using a b inst [THEN conjunct2] inst' [THEN conjunct2] by simp
qed

text \<open>
  When the session cookie is the first cookie of the header, \<^verbatim>\<open>extractSessionToken\<close>
  returns its value.
\<close>

lemma session_cookie_first:
  assumes "v \<noteq> []" and "0x3B \<notin> set v" and "rest = [] \<or> hd rest = 0x3B"
    and "Cookie req = Some (js ''poeclaw_session='' @ v @ rest)"
  shows "extractSessionToken (Cookie req) = Some v" and "session_cookie req = Some v"
proof -
  have all: "\<And>x. x \<in> set v \<Longrightarrow> x \<noteq> 0x3B" using assms(2) by auto
  have tw: "takeWhile (\<lambda>x. x \<noteq> 0x3B) (v @ rest) = v"
    using assms(3) all by (cases rest) (simp_all add: takeWhile_append2)
  show "extractSessionToken (Cookie req) = Some v"
    using assms(1) by (simp add: assms(4) extractSessionToken_def js_def tw)
  have n: "0x3B \<notin> set (js ''poeclaw_session='' @ v)" using assms(2) by (simp add: js_def)
  have sp: "hd (js_split 0x3B (js ''poeclaw_session='' @ v @ rest)) = js ''poeclaw_session='' @ v"
  proof (cases rest)
    case Nil
    then show ?thesis using js_split_no_separator [OF n] by simp
  next
    case (Cons r rs)
    with assms(3) have "rest = 0x3B # rs" by simp
    then show ?thesis using js_split_append [OF n, of rs] by simp
  qed
  obtain segs where segs: "js_split 0x3B (js ''poeclaw_session='' @ v @ rest)
      = (js ''poeclaw_session='' @ v) # segs"
    using sp js_split_nonempty [of "0x3B" "js ''poeclaw_session='' @ v @ rest"]
    by (cases "js_split 0x3B (js ''poeclaw_session='' @ v @ rest)") auto
  show "session_cookie req = Some v"
    using assms(1)
    by (simp add: session_cookie_def assms(4) named_cookie_def cookie_pairs_def segs)
      (simp add: js_def)
qed

text \<open>
  On a request whose session cookie is what \<^verbatim>\<open>extractSessionToken\<close> returns, the answer
  is determined by that cookie.
\<close>

lemma auth_me_session_cookie:
  assumes "extractSessionToken (Cookie req) = session_cookie req"
  shows "auth_me P now e req =
     (case (SESSION_SECRET e, session_cookie req) of
        (Some secret, Some token) \<Rightarrow>
          (if secret = [] then json Json_authenticated_false 401
           else case verifySessionToken P now token secret of
                  Some u \<Rightarrow> json (Json_authenticated_true (userHash u) (keyLast4 u) (models u)) 200
                | None \<Rightarrow> json Json_authenticated_false 401)
      | _ \<Rightarrow> json Json_authenticated_false 401)"
  unfolding auth_me_request_session request_session_def assms
  by (simp split: option.splits)

text \<open>
  C1. The claim is that the answer is 200 with \<open>authenticated: true\<close> exactly when the
  request carries a session cookie whose token verifies. The handler takes its token
  from \<^verbatim>\<open>extractSessionToken\<close>, which also matches inside a longer cookie name: a request
  whose valid session cookie follows a cookie named \<open>xpoeclaw_session\<close> is answered 401,
  and a request with no cookie named \<open>poeclaw_session\<close>, but with a valid token in a
  cookie named \<open>xpoeclaw_session\<close>, is answered 200.
\<close>

theorem auth_me_reads_other_cookie:
  "session_cookie (demo_request
       (Some (js ''xpoeclaw_session=evil; poeclaw_session='' @ demo_token))) = Some demo_token
   \<and> verifySessionToken demo_platform 7 demo_token (js ''k'') = Some demo_user
   \<and> auth_me demo_platform 7 demo_env
         (demo_request (Some (js ''xpoeclaw_session=evil; poeclaw_session='' @ demo_token)))
       = json Json_authenticated_false 401
   \<and> session_cookie (demo_request (Some (js ''xpoeclaw_session='' @ demo_token))) = None
   \<and> auth_me demo_platform 7 demo_env
         (demo_request (Some (js ''xpoeclaw_session='' @ demo_token)))
       = json (Json_authenticated_true (js ''ab'') (js ''cd'') []) 200"
proof -
  have 1: "session_cookie (demo_request
       (Some (js ''xpoeclaw_session=evil; poeclaw_session='' @ demo_token))) = Some demo_token"
    by (simp add: session_cookie_def named_cookie_def cookie_pairs_def demo_request_def
        demo_token_def js_def)
  have 2: "verifySessionToken demo_platform 7 demo_token (js ''k'') = Some demo_user"
    by (simp add: verifySessionToken_def model_eval demo_eval)
  have x: "extractSessionToken
        (Some (js ''xpoeclaw_session=evil; poeclaw_session='' @ demo_token)) = Some (js ''evil'')"
    by (simp add: extractSessionToken_def demo_token_def js_def)
  have e: "verifySessionToken demo_platform 7 (js ''evil'') (js ''k'') = None"
    by (simp add: verifySessionToken_def js_def)
  have 3: "auth_me demo_platform 7 demo_env
         (demo_request (Some (js ''xpoeclaw_session=evil; poeclaw_session='' @ demo_token)))
       = json Json_authenticated_false 401"
    by (simp add: auth_me_def demo_env_def demo_request_def x e)
  have 4: "session_cookie (demo_request (Some (js ''xpoeclaw_session='' @ demo_token))) = None"
    by (simp add: session_cookie_def named_cookie_def cookie_pairs_def demo_request_def
        demo_token_def js_def)
  have y: "extractSessionToken (Some (js ''xpoeclaw_session='' @ demo_token)) = Some demo_token"
    by (simp add: extractSessionToken_def demo_token_def js_def)
  have ne: "demo_token \<noteq> []" by (simp add: demo_token_def js_def)
  have 5: "auth_me demo_platform 7 demo_env
         (demo_request (Some (js ''xpoeclaw_session='' @ demo_token)))
       = json (Json_authenticated_true (js ''ab'') (js ''cd'') []) 200"
    by (simp add: auth_me_def demo_env_def demo_request_def y 2 ne demo_user_def)
      (simp add: js_def)
  from 1 2 3 4 5 show ?thesis by blast
qed

section \<open>Session errors in the middleware\<close>

lemma session_middleware_unauthenticated:
  assumes "DEV_MODE e \<noteq> Some (js ''true'')" and "\<not> falsy (SESSION_SECRET e)"
    and "request_session P now e req = None"
  shows "session_middleware P now e assets req =
     Respond (if acceptsHtml req then spa_shell assets
              else if extractSessionToken (Cookie req) = None
              then json (Json_error_hint (js ''Authentication required'')
                           (js ''POST /api/auth/login'')) 401
              else json (Json_error (js ''Session expired or invalid'')) 401)"
  using assms
  by (auto simp: session_middleware_def request_session_def falsy_def Let_def
      split: option.splits if_splits dest: extractSessionToken_nonempty)

text \<open>
  C2. The claim is that the response to a request with an invalid or expired session
  cookie is identical to the response to a request with no session cookie. For a request
  that does not accept HTML the two are both 401 but have different bodies.
\<close>

theorem session_error_differs_from_no_session:
  "session_middleware demo_platform 0 demo_env None (demo_request None)
     = Respond (json (Json_error_hint (js ''Authentication required'')
                        (js ''POST /api/auth/login'')) 401)
   \<and> session_middleware demo_platform 0 demo_env None
         (demo_request (Some (js ''poeclaw_session=x'')))
     = Respond (json (Json_error (js ''Session expired or invalid'')) 401)
   \<and> session_middleware demo_platform 0 demo_env None (demo_request None)
     \<noteq> session_middleware demo_platform 0 demo_env None
         (demo_request (Some (js ''poeclaw_session=x'')))"
  by (simp add: session_middleware_def extractSessionToken_def verifySessionToken_def
      acceptsHtml_def falsy_def json_def model_eval demo_eval)

text \<open>
  C2, as the middleware has it. Outside development mode and with a session secret
  configured, take a request without a valid session whose session cookie is what
  \<^verbatim>\<open>extractSessionToken\<close> returns. When it accepts HTML it is answered with the SPA shell.
  When it does not, it is answered 401 with the body \<open>Session expired or invalid\<close> if it
  has a session cookie, whatever is wrong with the token and at whatever time, and 401
  with the body \<open>Authentication required\<close> and a hint if it has none. So the response
  does not depend on why a token is invalid, only on whether one was presented.
\<close>

theorem session_errors_uniform:
  assumes "DEV_MODE e \<noteq> Some (js ''true'')"
    and "SESSION_SECRET e = Some secret" and "secret \<noteq> []"
    and "extractSessionToken (Cookie req) = session_cookie req"
    and "\<And>token. session_cookie req = Some token \<Longrightarrow>
           verifySessionToken P now token secret = None"
  shows "session_middleware P now e assets req =
     Respond (if acceptsHtml req then spa_shell assets
              else if session_cookie req = None
              then json (Json_error_hint (js ''Authentication required'')
                           (js ''POST /api/auth/login'')) 401
              else json (Json_error (js ''Session expired or invalid'')) 401)"
proof (cases "session_cookie req")
  case None
  with assms(1,2,3,4) show ?thesis
    by (simp add: session_middleware_def falsy_def)
next
  case (Some token)
  then have "token \<noteq> []"
    using assms(4) extractSessionToken_nonempty [of "Cookie req" token] by simp
  with Some assms(1,2,3,4) assms(5) [OF Some] show ?thesis
    by (simp add: session_middleware_def falsy_def)
qed

theorem session_errors_uniform_witness:
  "session_middleware demo_platform 0 demo_env None
       (demo_request (Some (js ''poeclaw_session=x'')))
     = Respond (json (Json_error (js ''Session expired or invalid'')) 401)
   \<and> session_middleware demo_platform 90000000 demo_env None
       (demo_request (Some (js ''poeclaw_session='' @ demo_token)))
     = Respond (json (Json_error (js ''Session expired or invalid'')) 401)
   \<and> session_middleware demo_platform 0 demo_env None (demo_request None)
     = Respond (json (Json_error_hint (js ''Authentication required'')
                        (js ''POST /api/auth/login'')) 401)"
proof -
  have 1: "DEV_MODE demo_env \<noteq> Some (js ''true'')"
    and 2: "SESSION_SECRET demo_env = Some (js ''k'')" and 3: "js ''k'' \<noteq> []"
    by (simp_all add: demo_env_def js_def)
  have h: "\<not> acceptsHtml (demo_request c)" for c
    by (simp add: acceptsHtml_def demo_request_def)
  have xa: "extractSessionToken (Cookie (demo_request (Some (js ''poeclaw_session=x''))))
      = Some (js ''x'')"
    by (simp add: extractSessionToken_def demo_request_def js_def)
  have sa: "session_cookie (demo_request (Some (js ''poeclaw_session=x''))) = Some (js ''x'')"
    by (simp add: session_cookie_def named_cookie_def cookie_pairs_def demo_request_def js_def)
  have va: "verifySessionToken demo_platform 0 (js ''x'') (js ''k'') = None"
    by (simp add: verifySessionToken_def js_def)
  have xb: "extractSessionToken (Cookie (demo_request (Some (js ''poeclaw_session='' @ demo_token))))
      = Some demo_token"
    by (simp add: extractSessionToken_def demo_request_def demo_token_def js_def)
  have sb: "session_cookie (demo_request (Some (js ''poeclaw_session='' @ demo_token)))
      = Some demo_token"
    by (simp add: session_cookie_def named_cookie_def cookie_pairs_def demo_request_def
        demo_token_def js_def)
  have vb: "verifySessionToken demo_platform 90000000 demo_token (js ''k'') = None"
    by (simp add: verifySessionToken_def model_eval demo_eval)
  have xc: "extractSessionToken (Cookie (demo_request None)) = None"
    and sc: "session_cookie (demo_request None) = None"
    by (simp_all add: extractSessionToken_def session_cookie_def demo_request_def)
  have a: "session_middleware demo_platform 0 demo_env None
       (demo_request (Some (js ''poeclaw_session=x'')))
     = Respond (json (Json_error (js ''Session expired or invalid'')) 401)"
    using session_errors_uniform [of demo_env "js ''k''"
        "demo_request (Some (js ''poeclaw_session=x''))" demo_platform 0 None, OF 1 2 3]
    by (simp add: xa sa va h)
  have b: "session_middleware demo_platform 90000000 demo_env None
       (demo_request (Some (js ''poeclaw_session='' @ demo_token)))
     = Respond (json (Json_error (js ''Session expired or invalid'')) 401)"
    using session_errors_uniform [of demo_env "js ''k''"
        "demo_request (Some (js ''poeclaw_session='' @ demo_token))" demo_platform 90000000 None,
        OF 1 2 3]
    by (simp add: xb sb vb h)
  have c: "session_middleware demo_platform 0 demo_env None (demo_request None)
     = Respond (json (Json_error_hint (js ''Authentication required'')
                        (js ''POST /api/auth/login'')) 401)"
    using session_errors_uniform [of demo_env "js ''k''" "demo_request None" demo_platform 0 None,
        OF 1 2 3]
    by (simp add: xc sc h)
  from a b c show ?thesis by blast
qed

section \<open>The shape of an issued token\<close>

lemma base64_alphabet_b64char: "i < 64 \<Longrightarrow> base64_alphabet (b64char i)"
  by (auto simp: base64_alphabet_def unat_b64char)

lemma base64_encode_alphabet: "c \<in> set (base64_encode bs) \<Longrightarrow> base64_alphabet c"
proof -
  assume "c \<in> set (base64_encode bs)"
  then consider i where "i \<in> set (sextets bs)" "c = b64char i" | "c = 61"
    by (auto simp: base64_encode_def)
  then show ?thesis
  proof cases
    case 1 then show ?thesis by (simp add: base64_alphabet_b64char sextets_bound)
  next
    case 2 then show ?thesis by (simp add: base64_alphabet_def)
  qed
qed

lemma base64_alphabet_not_special:
  "base64_alphabet c \<Longrightarrow> c \<noteq> 0x2E \<and> c \<noteq> 0x27 \<and> c \<noteq> 0x5C \<and> c \<noteq> 0x0A \<and> c \<noteq> 0x3B"
  by (auto simp: base64_alphabet_def)

lemma btoa_fromCharCode: "btoa (fromCharCode bs) = Inr (base64_encode bs)"
proof -
  have "ucast (b :: byte) \<le> (255 :: jschar)" for b
    using unat_byte [of b]
    by (simp add: word_le_nat_alt unsigned_ucast_eq take_bit_nat_eq_self)
  then have "\<not> list_ex (\<lambda>u. u > 255) (fromCharCode bs)"
    by (auto simp: list_ex_iff fromCharCode_def not_less)
  then show ?thesis
    using charCodes_fromCharCode [of bs] by (simp add: btoa_def charCodes_def)
qed

lemma btoa_alphabet: "btoa s = Inr t \<Longrightarrow> c \<in> set t \<Longrightarrow> base64_alphabet c"
  by (auto simp: btoa_def base64_encode_alphabet split: if_splits)

lemma sextets_empty: "sextets bs = [] \<longleftrightarrow> bs = []"
  by (cases bs rule: sextets.cases) simp_all

lemma btoa_empty: "btoa s = Inr t \<Longrightarrow> t = [] \<longleftrightarrow> s = []"
  by (auto simp: btoa_def base64_encode_def sextets_empty split: if_splits)

lemma createSessionToken_shape:
  assumes "createSessionToken P payload secret = Inr token"
  obtains payloadB64 key where
    "btoa (JSON_stringify P payload) = Inr payloadB64"
    "deriveHmacKey secret = Inr key"
    "token = payloadB64 @ 0x2E
               # base64_encode (hmac_sha256 P key (TextEncoder_encode payloadB64))"
  using assms
  by (auto simp: createSessionToken_def Let_def btoa_fromCharCode js_def
      split: sum.splits)

lemma js_split_token:
  assumes "btoa s = Inr payloadB64"
  shows "js_split 0x2E (payloadB64 @ 0x2E # base64_encode sig)
           = [payloadB64, base64_encode sig]"
proof -
  have 1: "0x2E \<notin> set payloadB64"
    using btoa_alphabet [OF assms] base64_alphabet_not_special by blast
  have 2: "0x2E \<notin> set (base64_encode sig)"
    using base64_encode_alphabet base64_alphabet_not_special by blast
  show ?thesis by (simp add: js_split_append [OF 1] js_split_no_separator [OF 2])
qed


lemma verify_created_token:
  assumes created: "createSessionToken P payload secret = Inr token"
    and roundtrip: "JSON_parse P (JSON_stringify P payload) = Some payload"
    and nonempty: "JSON_stringify P payload \<noteq> []"
    and mac: "\<And>key data. length (hmac_sha256 P key data) = 32"
  shows "verifySessionToken P now token secret =
           (if now - createdAt payload > SESSION_MAX_AGE_MS then None else Some payload)"
proof -
  from created obtain payloadB64 key where
    pb: "btoa (JSON_stringify P payload) = Inr payloadB64"
    and key: "deriveHmacKey secret = Inr key"
    and token: "token = payloadB64 @ 0x2E
               # base64_encode (hmac_sha256 P key (TextEncoder_encode payloadB64))"
    by (rule createSessionToken_shape)
  let ?sig = "hmac_sha256 P key (TextEncoder_encode payloadB64)"
  have split: "js_split 0x2E token = [payloadB64, base64_encode ?sig]"
    unfolding token by (rule js_split_token [OF pb])
  have pb_ne: "payloadB64 \<noteq> []"
    using btoa_empty [OF pb] nonempty by simp
  have "?sig \<noteq> []" using mac [of key "TextEncoder_encode payloadB64"] by auto
  then have sb_ne: "base64_encode ?sig \<noteq> []"
    by (simp add: base64_encode_def sextets_empty)
  show ?thesis
    by (simp add: verifySessionToken_def split pb_ne sb_ne key atob_base64_encode
        charCodes_fromCharCode atob_btoa [OF pb] roundtrip)
qed

section \<open>Session expiry\<close>

text \<open>
  C6. A token issued by \<^verbatim>\<open>createSessionToken\<close> is verified under the same secret
  exactly while its age is at most 24 hours: at an age of 24 hours plus one second it is
  rejected, at 24 hours minus one second it is accepted and its payload returned. The
  assumptions are those on the platform: \<open>JSON.parse\<close> inverts \<open>JSON.stringify\<close> on
  the payload, which is serialised to a non-empty string, and an HMAC-SHA256 signature
  has 32 bytes.
\<close>

theorem session_expiry:
  assumes "createSessionToken P payload secret = Inr token"
    and "JSON_parse P (JSON_stringify P payload) = Some payload"
    and "JSON_stringify P payload \<noteq> []"
    and "\<And>key data. length (hmac_sha256 P key data) = 32"
  shows "verifySessionToken P (createdAt payload + SESSION_MAX_AGE_MS + 1000) token secret = None
       \<and> verifySessionToken P (createdAt payload + SESSION_MAX_AGE_MS - 1000) token secret
           = Some payload
       \<and> (\<forall>now. verifySessionToken P now token secret =
             (if now - createdAt payload > SESSION_MAX_AGE_MS then None else Some payload))"
  using verify_created_token [OF assms] by simp

theorem session_expiry_witness:
  "verifySessionToken demo_platform (5 + SESSION_MAX_AGE_MS + 1000) demo_token (js ''k'') = None
   \<and> verifySessionToken demo_platform (5 + SESSION_MAX_AGE_MS - 1000) demo_token (js ''k'')
       = Some demo_user"
proof -
  have 1: "createSessionToken demo_platform demo_user (js ''k'') = Inr demo_token"
    by (simp add: createSessionToken_def model_eval demo_eval)
  have 2: "JSON_parse demo_platform (JSON_stringify demo_platform demo_user) = Some demo_user"
    by (simp add: model_eval demo_eval)
  have 3: "JSON_stringify demo_platform demo_user \<noteq> []"
    by (simp add: model_eval demo_eval)
  have 4: "length (hmac_sha256 demo_platform key data) = 32" for key data
    by (simp add: demo_platform_def demo_mac_def)
  have 5: "createdAt demo_user = 5" by (simp add: demo_user_def)
  show ?thesis
    using session_expiry [OF 1 2 3 4] unfolding 5 by blast
qed

section \<open>The encrypted key in the shell command\<close>

lemma encryptApiKey_alphabet:
  "encryptApiKey P iv apiKey secret = Inr blob \<Longrightarrow> c \<in> set blob \<Longrightarrow> base64_alphabet c"
  by (auto simp: encryptApiKey_def Let_def btoa_fromCharCode base64_encode_alphabet
      split: sum.splits if_splits)

lemma sh_single_quoted_literal:
  assumes "0x27 \<notin> set blob"
  shows "sh_single_quoted (blob @ 0x27 # rest) = Some (blob, rest)"
proof -
  have all: "\<And>x. x \<in> set blob \<Longrightarrow> x \<noteq> 0x27" using assms by auto
  have d: "dropWhile (\<lambda>c. c \<noteq> 0x27) (blob @ 0x27 # rest) = 0x27 # rest"
    using all by (simp add: dropWhile_append3)
  have t: "takeWhile (\<lambda>c. c \<noteq> 0x27) (blob @ 0x27 # rest) = blob"
    using all by (simp add: takeWhile_append2)
  show ?thesis by (simp add: sh_single_quoted_def d t)
qed

text \<open>
  C10. Every string \<^verbatim>\<open>encryptApiKey\<close> returns consists of characters of the base64
  alphabet, so it has no single quote, backslash or newline, and in the command of the
  login handler the single-quoted word after \<open>echo\<close> is exactly that string, followed by
  the redirection. Every command the login handler gives to \<open>sandbox.exec\<close> is built
  from such a string.
\<close>

theorem encrypted_key_is_shell_safe:
  "(encryptApiKey P iv apiKey secret = Inr blob \<longrightarrow>
      list_all base64_alphabet blob
      \<and> 0x27 \<notin> set blob \<and> 0x5C \<notin> set blob \<and> 0x0A \<notin> set blob
      \<and> (\<exists>text. login_command blob = js ''mkdir -p /tmp/poeclaw && echo '' @ 0x27 # text
             \<and> sh_single_quoted text = Some (blob, js '' > /tmp/poeclaw/encrypted-key'')))
   \<and> (snd (login_after_rate_limit P e inp) = Some cmd \<longrightarrow>
      (\<exists>key enc_secret enc. encryptApiKey P (random_iv inp) key enc_secret = Inr enc
          \<and> cmd = login_command enc))"
proof (intro conjI impI)
  assume enc: "encryptApiKey P iv apiKey secret = Inr blob"
  have alpha: "\<And>c. c \<in> set blob \<Longrightarrow> base64_alphabet c"
    by (rule encryptApiKey_alphabet [OF enc])
  then show "list_all base64_alphabet blob" by (simp add: list_all_iff)
  show q: "0x27 \<notin> set blob" using alpha base64_alphabet_not_special by blast
  show "0x5C \<notin> set blob" using alpha base64_alphabet_not_special by blast
  show "0x0A \<notin> set blob" using alpha base64_alphabet_not_special by blast
  have "login_command blob = js ''mkdir -p /tmp/poeclaw && echo ''
          @ 0x27 # (blob @ 0x27 # js '' > /tmp/poeclaw/encrypted-key'')"
    by (simp add: login_command_def)
  with sh_single_quoted_literal [OF q]
  show "\<exists>text. login_command blob = js ''mkdir -p /tmp/poeclaw && echo '' @ 0x27 # text
             \<and> sh_single_quoted text = Some (blob, js '' > /tmp/poeclaw/encrypted-key'')"
    by blast
next
  assume "snd (login_after_rate_limit P e inp) = Some cmd"
  then show "\<exists>key enc_secret enc. encryptApiKey P (random_iv inp) key enc_secret = Inr enc
          \<and> cmd = login_command enc"
    by (auto simp: login_after_rate_limit_def Let_def json_def
        split: option.splits if_splits sum.splits)
qed

theorem encrypted_key_is_shell_safe_witness:
  "encryptApiKey demo_platform (replicate 12 7) (js ''pb-key'') (js ''s'') = Inr demo_blob
   \<and> list_all base64_alphabet demo_blob
   \<and> 0x27 \<notin> set demo_blob \<and> 0x5C \<notin> set demo_blob \<and> 0x0A \<notin> set demo_blob"
proof -
  have enc: "encryptApiKey demo_platform (replicate 12 7) (js ''pb-key'') (js ''s'')
      = Inr demo_blob"
    by (simp add: encryptApiKey_def aesKeyData_def padEnd_def code_points.simps
        demo_blob_def model_eval demo_eval)
  from encrypted_key_is_shell_safe [of demo_platform "replicate 12 7" "js ''pb-key''" "js ''s''"
      demo_blob demo_env demo_login_input "[]"] enc
  show ?thesis by blast
qed

section \<open>UTF-8: decoding an encoding\<close>

lemma lead2_mod: "h < 32 \<Longrightarrow> (192 + h) mod 32 = (h::nat)"
  using mod_mult_self4 [of 32 6 h] by simp
lemma lead3_mod: "h < 16 \<Longrightarrow> (224 + h) mod 16 = (h::nat)"
  using mod_mult_self4 [of 16 14 h] by simp
lemma lead4_mod: "h < 8 \<Longrightarrow> (240 + h) mod 8 = (h::nat)"
  using mod_mult_self4 [of 8 30 h] by simp
lemma cont_mod: "l < 64 \<Longrightarrow> (128 + l) mod 64 = (l::nat)"
  using mod_mult_self4 [of 64 2 l] by simp


lemma utf8_decode_1:
  "unat b \<le> 0x7F \<Longrightarrow>
   utf8_decode 0 0 0 0x80 0xBF (b # bs) = unat b # utf8_decode 0 0 0 0x80 0xBF bs"
  by simp

lemma utf8_decode_2:
  assumes "unat b1 = 0xC0 + h" "2 \<le> h" "h < 32" "unat b2 = 0x80 + l" "l < 64"
  shows "utf8_decode 0 0 0 0x80 0xBF (b1 # b2 # bs)
           = (h * 64 + l) # utf8_decode 0 0 0 0x80 0xBF bs"
  using assms by (simp add: lead2_mod cont_mod)

lemma utf8_decode_3:
  assumes "unat b1 = 0xE0 + h" "h < 16" "unat b2 = 0x80 + m" "m < 64"
    "h = 0 \<longrightarrow> 32 \<le> m" "h = 13 \<longrightarrow> m < 32" "unat b3 = 0x80 + l" "l < 64"
  shows "utf8_decode 0 0 0 0x80 0xBF (b1 # b2 # b3 # bs)
           = ((h * 64 + m) * 64 + l) # utf8_decode 0 0 0 0x80 0xBF bs"
  using assms by (auto simp: lead3_mod cont_mod)

lemma utf8_decode_4:
  assumes "unat b1 = 0xF0 + h" "h \<le> 4" "unat b2 = 0x80 + m" "m < 64"
    "h = 0 \<longrightarrow> 16 \<le> m" "h = 4 \<longrightarrow> m < 16" "unat b3 = 0x80 + l" "l < 64"
    "unat b4 = 0x80 + k" "k < 64"
  shows "utf8_decode 0 0 0 0x80 0xBF (b1 # b2 # b3 # b4 # bs)
           = (((h * 64 + m) * 64 + l) * 64 + k) # utf8_decode 0 0 0 0x80 0xBF bs"
  using assms by (auto simp: lead4_mod cont_mod)


lemma unat_of_nat_byte: "n < 256 \<Longrightarrow> unat (of_nat n :: byte) = n"
  by (simp add: unat_of_nat)

lemma div_mod_64: "(cp :: nat) div 64 * 64 + cp mod 64 = cp"
  by simp

lemma div_4096: "(cp :: nat) div 4096 = cp div 64 div 64"
  using div_mult2_eq [of cp 64 64] by simp

lemma div_262144: "(cp :: nat) div 262144 = cp div 64 div 64 div 64"
  using div_mult2_eq [of cp 4096 64] by (simp add: div_4096)

lemma utf8_decode_bytes:
  assumes "scalar_value cp"
  shows "utf8_decode 0 0 0 0x80 0xBF (utf8_bytes cp @ rest)
           = cp # utf8_decode 0 0 0 0x80 0xBF rest"
proof -
  consider "cp < 0x80" | "0x80 \<le> cp" "cp < 0x800" | "0x800 \<le> cp" "cp < 0x10000"
    | "0x10000 \<le> cp" by linarith
  then show ?thesis
  proof cases
    case 1
    then have "unat (of_nat cp :: byte) = cp" by (simp add: unat_of_nat_byte)
    with 1 show ?thesis by (simp add: utf8_bytes_def)
  next
    case 2
    let ?h = "cp div 64" and ?l = "cp mod 64"
    have h: "2 \<le> ?h" "?h < 32" using 2 by simp_all
    have l: "?l < 64" by simp
    have b1: "unat (of_nat (0xC0 + ?h) :: byte) = 0xC0 + ?h"
      using h by (intro unat_of_nat_byte) simp
    have b2: "unat (of_nat (0x80 + ?l) :: byte) = 0x80 + ?l"
      using l by (intro unat_of_nat_byte) simp
    have "utf8_bytes cp = [of_nat (0xC0 + ?h), of_nat (0x80 + ?l)]"
      using 2 by (simp add: utf8_bytes_def)
    then show ?thesis
      using utf8_decode_2 [OF b1 h b2 l, of rest] by (simp only: append_Cons append_Nil div_mod_64)
  next
    case 3
    define l where "l = cp mod 64"
    define q where "q = cp div 64"
    define m where "m = q mod 64"
    define h where "h = q div 64"
    have cp: "cp = 64 * q + l" and l: "l < 64" by (simp_all add: q_def l_def)
    have q: "q = 64 * h + m" and m: "m < 64" by (simp_all add: h_def m_def)
    have ns: "cp < 0xD800 \<or> 0xDFFF < cp" using assms by (auto simp: scalar_value_def)
    have h: "h < 16" using 3 cp q l m by linarith
    have lo: "h = 0 \<longrightarrow> 32 \<le> m" using 3 cp q l m by linarith
    have hi: "h = 13 \<longrightarrow> m < 32" using ns cp q l m by linarith
    have b1: "unat (of_nat (0xE0 + h) :: byte) = 0xE0 + h"
      using h by (intro unat_of_nat_byte) simp
    have b2: "unat (of_nat (0x80 + m) :: byte) = 0x80 + m"
      using m by (intro unat_of_nat_byte) simp
    have b3: "unat (of_nat (0x80 + l) :: byte) = 0x80 + l"
      using l by (intro unat_of_nat_byte) simp
    have bytes: "utf8_bytes cp = [of_nat (0xE0 + h), of_nat (0x80 + m), of_nat (0x80 + l)]"
      using 3 by (simp add: utf8_bytes_def div_4096 h_def m_def q_def l_def)
    have val: "(h * 64 + m) * 64 + l = cp" using cp q by simp
    show ?thesis
      using utf8_decode_3 [OF b1 h b2 m lo hi b3 l, of rest]
      by (simp only: bytes append_Cons append_Nil val)
  next
    case 4
    define k where "k = cp mod 64"
    define q where "q = cp div 64"
    define l where "l = q mod 64"
    define r where "r = q div 64"
    define m where "m = r mod 64"
    define h where "h = r div 64"
    have cp: "cp = 64 * q + k" and k: "k < 64" by (simp_all add: q_def k_def)
    have q: "q = 64 * r + l" and l: "l < 64" by (simp_all add: r_def l_def)
    have r: "r = 64 * h + m" and m: "m < 64" by (simp_all add: h_def m_def)
    have up: "cp < 0x110000" using assms by (simp add: scalar_value_def)
    have h: "h \<le> 4" using up cp q r k l m by linarith
    have lo: "h = 0 \<longrightarrow> 16 \<le> m" using 4 cp q r k l m by linarith
    have hi: "h = 4 \<longrightarrow> m < 16" using up cp q r k l m by linarith
    have b1: "unat (of_nat (0xF0 + h) :: byte) = 0xF0 + h"
      using h by (intro unat_of_nat_byte) simp
    have b2: "unat (of_nat (0x80 + m) :: byte) = 0x80 + m"
      using m by (intro unat_of_nat_byte) simp
    have b3: "unat (of_nat (0x80 + l) :: byte) = 0x80 + l"
      using l by (intro unat_of_nat_byte) simp
    have b4: "unat (of_nat (0x80 + k) :: byte) = 0x80 + k"
      using k by (intro unat_of_nat_byte) simp
    have bytes: "utf8_bytes cp = [of_nat (0xF0 + h), of_nat (0x80 + m), of_nat (0x80 + l),
        of_nat (0x80 + k)]"
      using 4 by (simp add: utf8_bytes_def div_4096 div_262144 h_def m_def r_def q_def l_def k_def)
    have val: "((h * 64 + m) * 64 + l) * 64 + k = cp" using cp q r by simp
    show ?thesis
      using utf8_decode_4 [OF b1 h b2 m lo hi b3 l b4 k, of rest]
      by (simp only: bytes append_Cons append_Nil val)
  qed
qed



lemma unat_jschar: "unat (u :: jschar) < 65536"
  using unsigned_less [of u, where 'a = nat] by simp

lemma utf8_decode_concat:
  "(\<And>cp. cp \<in> set cps \<Longrightarrow> scalar_value cp) \<Longrightarrow>
   utf8_decode 0 0 0 0x80 0xBF (concat (map utf8_bytes cps)) = cps"
  by (induction cps) (simp_all add: utf8_decode_bytes)


lemma scalar_value_pair:
  assumes "is_high_surrogate u" "is_low_surrogate v"
  shows "scalar_value (0x10000 + (unat u - 0xD800) * 0x400 + (unat v - 0xDC00))"
proof -
  define a where "a = unat u - 0xD800"
  define b where "b = unat v - 0xDC00"
  have "a < 0x400" "b < 0x400"
    using assms by (auto simp: a_def b_def is_high_surrogate_def is_low_surrogate_def)
  then have "0x10000 + a * 0x400 + b < 0x110000" "0xDFFF < 0x10000 + a * 0x400 + b"
    by linarith+
  then show ?thesis unfolding scalar_value_def a_def b_def by linarith
qed

lemma scalar_value_unit:
  "scalar_value (if is_high_surrogate u \<or> is_low_surrogate u then 0xFFFD else unat u)"
  using unat_jschar [of u]
  by (auto simp: scalar_value_def is_high_surrogate_def is_low_surrogate_def)

lemma code_points_scalar: "cp \<in> set (code_points s) \<Longrightarrow> scalar_value cp"
proof (induction s arbitrary: cp rule: code_points.induct)
  case (1 u v rest)
  show ?case
  proof (cases "is_high_surrogate u \<and> is_low_surrogate v")
    case True
    with 1 scalar_value_pair [of u v] show ?thesis by auto
  next
    case False
    with 1 scalar_value_unit [of u] show ?thesis by auto
  qed
next
  case (2 u)
  with scalar_value_unit [of u] show ?case by simp
next
  case 3
  then show ?case by simp
qed

lemma utf16_units_pair:
  assumes "is_high_surrogate u" "is_low_surrogate v"
  shows "utf16_units (0x10000 + (unat u - 0xD800) * 0x400 + (unat v - 0xDC00)) = [u, v]"
proof -
  define a where "a = unat u - 0xD800"
  define b where "b = unat v - 0xDC00"
  have a: "unat u = 0xD800 + a" and b: "unat v = 0xDC00 + b" "b < 0x400"
    using assms by (auto simp: a_def b_def is_high_surrogate_def is_low_surrogate_def)
  have d: "(a * 0x400 + b) div 0x400 = a" and m: "(a * 0x400 + b) mod 0x400 = b"
    using b(2) by simp_all
  have big: "\<not> 0x10000 + a * 0x400 + b < 0x10000" by simp
  have sub: "0x10000 + a * 0x400 + b - 0x10000 = a * 0x400 + b" by simp
  have "utf16_units (0x10000 + a * 0x400 + b)
      = [of_nat (0xD800 + a), of_nat (0xDC00 + b)]"
    unfolding utf16_units_def by (simp only: big if_False sub d m)
  also have "\<dots> = [of_nat (unat u), of_nat (unat v)]" by (simp only: a b)
  finally show ?thesis by (simp add: a_def b_def)
qed


lemma utf16_units_single: "utf16_units (unat u) = [u]"
  using unat_jschar [of u] by (simp add: utf16_units_def)


lemma utf16_code_points:
  "well_formed_utf16 s \<Longrightarrow> concat (map utf16_units (code_points s)) = s"
proof (induction s rule: code_points.induct)
  case (1 u v rest)
  show ?case
  proof (cases "is_high_surrogate u")
    case True
    with 1 show ?thesis by (simp add: utf16_units_pair)
  next
    case False
    with 1 show ?thesis by (simp add: utf16_units_single)
  qed
next
  case (2 u)
  then show ?case by (simp add: utf16_units_single)
next
  case 3
  show ?case by simp
qed

lemma code_points_first:
  assumes "well_formed_utf16 s" "code_points s = 0xFEFF # r"
  shows "\<exists>t. s = 0xFEFF # t"
proof -
  have unit: "unat u = 0xFEFF \<Longrightarrow> u = 0xFEFF" for u :: jschar
    by (simp add: word_unat_eq_iff)
  show ?thesis
  proof (cases s rule: code_points.cases)
    case (1 u v rest)
    show ?thesis
    proof (cases "is_high_surrogate u")
      case True
      with assms 1 have "0x10000 + (unat u - 0xD800) * 0x400 + (unat v - 0xDC00) = (0xFEFF::nat)"
        by simp
      then show ?thesis by linarith
    next
      case False
      with assms 1 have "unat u = 0xFEFF" by (simp split: if_splits)
      then show ?thesis using 1 unit by blast
    qed
  next
    case (2 u)
    with assms have "unat u = 0xFEFF" by (simp split: if_splits)
    then show ?thesis using 2 unit by blast
  next
    case 3
    with assms show ?thesis by simp
  qed
qed

lemma TextDecoder_TextEncoder:
  assumes "well_formed_utf16 s" and "\<nexists>t. s = 0xFEFF # t"
  shows "TextDecoder_decode (TextEncoder_encode s) = s"
proof -
  have dec: "utf8_decode 0 0 0 0x80 0xBF (TextEncoder_encode s) = code_points s"
    unfolding TextEncoder_encode_def by (rule utf8_decode_concat) (rule code_points_scalar)
  have "(case code_points s of c # r \<Rightarrow> if c = 0xFEFF then r else code_points s | [] \<Rightarrow> [])
      = code_points s"
    using code_points_first [OF assms(1)] assms(2) by (auto split: list.splits)
  then show ?thesis
    by (simp add: TextDecoder_decode_def dec utf16_code_points [OF assms(1)])
qed

section \<open>Encrypting and decrypting the API key\<close>

lemma TextEncoder_ascii:
  "list_all (\<lambda>u. u < 0x80) s \<Longrightarrow> length (TextEncoder_encode s) = length s"
proof (induction s rule: code_points.induct)
  case (1 u v rest)
  then have u: "unat u < 0x80" by (simp add: word_less_nat_alt)
  then have "\<not> is_high_surrogate u" "\<not> is_low_surrogate u"
    by (simp_all add: is_high_surrogate_def is_low_surrogate_def)
  with 1 u show ?case
    by (simp add: TextEncoder_encode_def utf8_bytes_def)
next
  case (2 u)
  then have u: "unat u < 0x80" by (simp add: word_less_nat_alt)
  then have "\<not> is_high_surrogate u" "\<not> is_low_surrogate u"
    by (simp_all add: is_high_surrogate_def is_low_surrogate_def)
  with u show ?case
    by (simp add: TextEncoder_encode_def utf8_bytes_def)
next
  case 3
  show ?case by (simp add: TextEncoder_encode_def)
qed

lemma length_key_string: "length (take 32 (padEnd 32 c k)) = 32"
  by (simp add: padEnd_def)

text \<open>
  A string has at most as many code units as its UTF-8 encoding has bytes, and as many
  only when all of them are ASCII; among ASCII strings the encoding is injective.
\<close>

lemma utf8_bytes_unit:
  "1 \<le> length (utf8_bytes (if is_high_surrogate u \<or> is_low_surrogate u then 0xFFFD else unat u))"
  "length (utf8_bytes (if is_high_surrogate u \<or> is_low_surrogate u then 0xFFFD else unat u)) \<le> 1
     \<Longrightarrow> u < 0x80"
  by (simp_all add: utf8_bytes_def word_less_nat_alt split: if_splits)

lemma utf8_bytes_pair: "0x10000 \<le> cp \<Longrightarrow> length (utf8_bytes cp) = 4"
  by (simp add: utf8_bytes_def)

lemma TextEncoder_length:
  "length s \<le> length (TextEncoder_encode s)
   \<and> (length (TextEncoder_encode s) \<le> length s \<longrightarrow> list_all (\<lambda>u. u < 0x80) s)"
proof (induction s rule: code_points.induct)
  case (1 u v rest)
  show ?case
  proof (cases "is_high_surrogate u \<and> is_low_surrogate v")
    case True
    have "length (utf8_bytes (0x10000 + (unat u - 0xD800) * 0x400 + (unat v - 0xDC00))) = 4"
      by (rule utf8_bytes_pair) simp
    with True 1(1) show ?thesis by (simp add: TextEncoder_encode_def)
  next
    case False
    with 1(2) utf8_bytes_unit [of u] show ?thesis
      by (auto simp: TextEncoder_encode_def)
  qed
next
  case (2 u)
  with utf8_bytes_unit [of u] show ?case by (auto simp: TextEncoder_encode_def)
next
  case 3
  show ?case by (simp add: TextEncoder_encode_def)
qed

lemma TextEncoder_ascii_bytes:
  "list_all (\<lambda>u. u < 0x80) s \<Longrightarrow> TextEncoder_encode s = map ucast s"
proof (induction s rule: code_points.induct)
  case (1 u v rest)
  then have u: "unat u < 0x80" by (simp add: word_less_nat_alt)
  then have "\<not> is_high_surrogate u" "\<not> is_low_surrogate u"
    by (simp_all add: is_high_surrogate_def is_low_surrogate_def)
  with 1 u show ?case
    by (simp add: TextEncoder_encode_def utf8_bytes_def)
next
  case (2 u)
  then have u: "unat u < 0x80" by (simp add: word_less_nat_alt)
  then have "\<not> is_high_surrogate u" "\<not> is_low_surrogate u"
    by (simp_all add: is_high_surrogate_def is_low_surrogate_def)
  with u show ?case
    by (simp add: TextEncoder_encode_def utf8_bytes_def)
next
  case 3
  show ?case by (simp add: TextEncoder_encode_def)
qed

lemma ascii_bytes_back:
  "list_all (\<lambda>u. u < 0x80) s \<Longrightarrow> map ucast (map ucast s :: byte list) = (s :: jsstring)"
proof (induction s)
  case Nil
  show ?case by simp
next
  case (Cons u s)
  then have "u \<le> 255" by (simp add: word_less_nat_alt word_le_nat_alt)
  with Cons show ?case by (simp add: ucast_latin1_roundtrip)
qed

lemma ascii_bytes_inj:
  assumes "list_all (\<lambda>u. u < 0x80) a" and "list_all (\<lambda>u. u < 0x80) b"
    and "map ucast a = (map ucast b :: byte list)"
  shows "a = (b :: jsstring)"
  using ascii_bytes_back [OF assms(1)] ascii_bytes_back [OF assms(2)] assms(3) by simp

lemma TextEncoder_ascii_inj:
  assumes "list_all (\<lambda>u. u < 0x80) b" and "length a = length b"
    and "TextEncoder_encode a = TextEncoder_encode b"
  shows "a = b"
proof -
  have "length (TextEncoder_encode a) = length a"
    using TextEncoder_ascii [OF assms(1)] assms(2,3) by simp
  then have "list_all (\<lambda>u. u < 0x80) a" using TextEncoder_length [of a] by simp
  then show ?thesis
    using assms(1,3) by (simp add: TextEncoder_ascii_bytes ascii_bytes_inj)
qed

lemma aesKeyData_ascii:
  assumes "list_all (\<lambda>u. u < 0x80) (take 32 (padEnd 32 0x30 k))"
  shows "aesKeyData k = Inr (TextEncoder_encode (take 32 (padEnd 32 0x30 k)))"
    and "length (TextEncoder_encode (take 32 (padEnd 32 0x30 k))) = 32"
  using TextEncoder_ascii [OF assms] length_key_string [of "0x30" k]
  by (simp_all add: aesKeyData_def Let_def)

lemma decrypt_encrypted:
  assumes enc: "encryptApiKey P iv p k = Inr blob" and iv: "length iv = 12"
    and key: "aesKeyData k' = Inr key'"
  shows "\<exists>key. aesKeyData k = Inr key
           \<and> decryptApiKey P blob k' =
               (case aes_gcm_decrypt P key' iv (aes_gcm_encrypt P key iv (TextEncoder_encode p)) of
                  None \<Rightarrow> Inl OperationError
                | Some plaintext \<Rightarrow> Inr (TextDecoder_decode plaintext))"
proof -
  from enc obtain key where k: "aesKeyData k = Inr key"
    and blob: "blob = base64_encode (iv @ aes_gcm_encrypt P key iv (TextEncoder_encode p))"
    by (auto simp: encryptApiKey_def Let_def btoa_fromCharCode split: sum.splits if_splits)
  have "decryptApiKey P blob k' =
               (case aes_gcm_decrypt P key' iv (aes_gcm_encrypt P key iv (TextEncoder_encode p)) of
                  None \<Rightarrow> Inl OperationError
                | Some plaintext \<Rightarrow> Inr (TextDecoder_decode plaintext))"
    by (simp add: decryptApiKey_def key blob atob_base64_encode charCodes_fromCharCode iv)
  with k show ?thesis by blast
qed


lemma demo_cipher_correct:
  "length key = 32 \<Longrightarrow>
   aes_gcm_decrypt demo_platform key iv (aes_gcm_encrypt demo_platform key iv pt) = Some pt"
  by (simp add: demo_platform_def demo_decrypt_def demo_encrypt_def)

text \<open>
  Inputs on which the round trip does not hold, whatever the cipher: the decoder drops a
  leading byte order mark and the encoder replaces an unpaired surrogate; a secret with a
  code unit above U+007F among its first 32 gives a key of more than 32 bytes; and a
  plaintext whose ciphertext, with the IV, has more bytes than a call has arguments is
  not encoded.
\<close>

lemma TextDecoder_drops_mark: "TextDecoder_decode (TextEncoder_encode [0xFEFF]) = []"
  by (simp add: TextDecoder_decode_def utf16_units_def model_eval)

lemma TextEncoder_replaces_surrogate:
  "TextDecoder_decode (TextEncoder_encode [0xD800]) = [0xFFFD]"
  by (simp add: TextDecoder_decode_def utf16_units_def model_eval)

lemma aesKeyData_non_ascii: "aesKeyData [0xE9] = Inl DataError"
  by (simp add: aesKeyData_def padEnd_def model_eval)

lemma encryptApiKey_non_ascii: "encryptApiKey P iv p [0xE9] = Inl DataError"
  by (simp add: encryptApiKey_def aesKeyData_non_ascii)

lemma encryptApiKey_RangeError:
  assumes "aesKeyData k = Inr key"
    and "argument_limit P < length (iv @ aes_gcm_encrypt P key iv (TextEncoder_encode p))"
  shows "encryptApiKey P iv p k = Inl RangeError"
  using assms by (simp add: encryptApiKey_def)

text \<open>
  C3. The claim is the round trip for every plaintext and every secret. A plaintext that
  begins with U+FEFF comes back without it, since \<open>TextDecoder\<close> drops a leading byte
  order mark, and an unpaired surrogate comes back as U+FFFD. With a secret that has a
  non-ASCII character among its first 32 code units the key has more than 32 bytes, so
  that \<open>importKey\<close> throws and nothing is encrypted. And a plaintext of 125000 characters
  is not encrypted where a call has at most 65535 arguments, since \<open>String.fromCharCode\<close>
  is given every byte as an argument.
\<close>

theorem api_key_roundtrip_fails:
  "encryptApiKey demo_platform (replicate 12 7) [0xFEFF] (js ''s'') = Inr demo_blob_bom
   \<and> decryptApiKey demo_platform demo_blob_bom (js ''s'') = Inr []
   \<and> (case encryptApiKey demo_platform (replicate 12 7) [0xD800] (js ''s'') of
         Inl e \<Rightarrow> False
       | Inr blob \<Rightarrow> decryptApiKey demo_platform blob (js ''s'') = Inr [0xFFFD])
   \<and> encryptApiKey demo_platform (replicate 12 7) (js ''pb-key'') [0xE9] = Inl DataError
   \<and> encryptApiKey demo_platform (replicate 12 7) (replicate 125000 0x61) (js ''s'')
       = Inl RangeError"
proof -
  have 1: "encryptApiKey demo_platform (replicate 12 7) [0xFEFF] (js ''s'') = Inr demo_blob_bom
      \<and> decryptApiKey demo_platform demo_blob_bom (js ''s'') = Inr []"
    by (simp add: encryptApiKey_def decryptApiKey_def aesKeyData_def padEnd_def
        TextDecoder_decode_def utf16_units_def demo_blob_bom_def model_eval demo_eval)
  have 2: "(case encryptApiKey demo_platform (replicate 12 7) [0xD800] (js ''s'') of
         Inl e \<Rightarrow> False
       | Inr blob \<Rightarrow> decryptApiKey demo_platform blob (js ''s'') = Inr [0xFFFD])"
    by (simp add: encryptApiKey_def decryptApiKey_def aesKeyData_def padEnd_def
        TextDecoder_decode_def utf16_units_def model_eval demo_eval)
  have 3: "encryptApiKey demo_platform (replicate 12 7) (js ''pb-key'') [0xE9] = Inl DataError"
    by (rule encryptApiKey_non_ascii)
  have key: "aesKeyData (js ''s'')
      = Inr (TextEncoder_encode (js ''s0000000000000000000000000000000''))"
    by (simp add: aesKeyData_def padEnd_def model_eval)
  have "list_all (\<lambda>u. u < 0x80) (replicate 125000 (0x61 :: jschar))"
    by (simp add: list_all_iff)
  then have "length (TextEncoder_encode (replicate 125000 0x61)) = 125000"
    using TextEncoder_ascii [of "replicate 125000 0x61"] by simp
  then have "argument_limit demo_platform
      < length (replicate 12 7 @ aes_gcm_encrypt demo_platform
          (TextEncoder_encode (js ''s0000000000000000000000000000000'')) (replicate 12 7)
          (TextEncoder_encode (replicate 125000 0x61)))"
    by (simp add: demo_platform_def demo_encrypt_def)
  then have 4: "encryptApiKey demo_platform (replicate 12 7) (replicate 125000 0x61) (js ''s'')
       = Inl RangeError"
    by (rule encryptApiKey_RangeError [OF key])
  from 1 2 3 4 show ?thesis by blast
qed

text \<open>
  C3, as the code has it. For every plaintext in which every surrogate is paired and which
  does not begin with U+FEFF, every secret whose first 32 code units, after padding with
  \<open>0\<close>, are ASCII, and every 12-byte IV, encryption succeeds and decryption with the
  same secret returns the plaintext, provided that the IV and the ciphertext together
  have no more bytes than a call has arguments. The assumption on the platform is that
  AES-GCM decryption inverts encryption under a 32-byte key and that IV.
\<close>

theorem api_key_roundtrip:
  assumes "well_formed_utf16 p" and "\<nexists>t. p = 0xFEFF # t"
    and "list_all (\<lambda>u. u < 0x80) (take 32 (padEnd 32 0x30 k))"
    and "length iv = 12"
    and "\<And>key pt. length key = 32 \<Longrightarrow>
           aes_gcm_decrypt P key iv (aes_gcm_encrypt P key iv pt) = Some pt"
    and "length (iv @ aes_gcm_encrypt P (TextEncoder_encode (take 32 (padEnd 32 0x30 k))) iv
                   (TextEncoder_encode p)) \<le> argument_limit P"
  shows "\<exists>blob. encryptApiKey P iv p k = Inr blob \<and> decryptApiKey P blob k = Inr p"
proof -
  let ?key = "TextEncoder_encode (take 32 (padEnd 32 0x30 k))"
  have key: "aesKeyData k = Inr ?key" and len: "length ?key = 32"
    using aesKeyData_ascii [OF assms(3)] by simp_all
  obtain blob where enc: "encryptApiKey P iv p k = Inr blob"
    using assms(6) by (simp add: encryptApiKey_def key Let_def btoa_fromCharCode)
  from decrypt_encrypted [OF enc assms(4) key]
  have "decryptApiKey P blob k =
      (case aes_gcm_decrypt P ?key iv (aes_gcm_encrypt P ?key iv (TextEncoder_encode p)) of
         None \<Rightarrow> Inl OperationError
       | Some plaintext \<Rightarrow> Inr (TextDecoder_decode plaintext))"
    by (simp add: key)
  then have "decryptApiKey P blob k = Inr p"
    by (simp add: assms(5) [OF len] TextDecoder_TextEncoder [OF assms(1,2)])
  with enc show ?thesis by blast
qed

theorem api_key_roundtrip_witness:
  "encryptApiKey demo_platform (replicate 12 7) (js ''pb-key'') (js ''s'') = Inr demo_blob
   \<and> decryptApiKey demo_platform demo_blob (js ''s'') = Inr (js ''pb-key'')"
proof -
  have 1: "well_formed_utf16 (js ''pb-key'')"
    by (simp add: js_def is_high_surrogate_def is_low_surrogate_def)
  have 2: "\<nexists>t. js ''pb-key'' = 0xFEFF # t" by (simp add: js_def)
  have 3: "list_all (\<lambda>u. u < 0x80) (take 32 (padEnd 32 0x30 (js ''s'')))"
    by (simp add: padEnd_def js_def replicate_numeral)
  have 4: "length (replicate 12 (7 :: byte)) = 12" by simp
  have 6: "length (replicate 12 7 @ aes_gcm_encrypt demo_platform
                (TextEncoder_encode (take 32 (padEnd 32 0x30 (js ''s'')))) (replicate 12 7)
                (TextEncoder_encode (js ''pb-key''))) \<le> argument_limit demo_platform"
    by (simp add: padEnd_def model_eval demo_eval)
  have enc: "encryptApiKey demo_platform (replicate 12 7) (js ''pb-key'') (js ''s'')
      = Inr demo_blob"
    by (simp add: encryptApiKey_def aesKeyData_def padEnd_def model_eval demo_eval)
  from api_key_roundtrip [OF 1 2 3 4 demo_cipher_correct 6] enc
  show ?thesis by auto
qed

section \<open>Decrypting with another secret\<close>






section \<open>Tampering with an issued token\<close>

lemma js_split_prefix:
  "sep \<notin> set xs \<Longrightarrow> js_split sep (xs @ ys) = (xs @ hd (js_split sep ys)) # tl (js_split sep ys)"
proof (induction xs)
  case Nil
  then show ?case using js_split_nonempty [of sep ys] by (cases "js_split sep ys") auto
next
  case (Cons x xs)
  then show ?case by (auto split: list.splits)
qed

lemma sextets_append:
  "length xs mod 3 = 0 \<Longrightarrow> sextets (xs @ ys) = sextets xs @ sextets ys"
proof (induction xs rule: sextets.induct)
  case (1 a b c rest)
  have "length (a # b # c # rest) mod 3 = length rest mod 3"
    using mod_add_self2 [of "length rest" 3] by simp
  with 1 show ?case by simp
qed simp_all

lemma base64_decode_append:
  "length xs mod 4 = 0 \<Longrightarrow> base64_decode (xs @ ys) = base64_decode xs @ base64_decode ys"
proof (induction xs rule: base64_decode.induct)
  case (1 a b c d rest)
  have "length (a # b # c # d # rest) mod 4 = length rest mod 4"
    using mod_add_self2 [of "length rest" 4] by simp
  with 1 show ?case by simp
qed simp_all

lemma b64val_Some_not_special:
  "b64val c = Some v \<Longrightarrow> c \<noteq> 61 \<and> c \<noteq> 0x2E \<and> \<not> ascii_whitespace c \<and> v < 64"
  by (auto simp: b64val_def Let_def ascii_whitespace_def split: if_splits)

lemma b64char_b64val: "b64val c = Some v \<Longrightarrow> b64char v = c"
  by (auto simp: b64val_def b64char_def Let_def word_unat_eq_iff unat_of_nat
      split: if_splits)


lemma strip_padding_prefix:
  assumes "list_all (\<lambda>c. c \<noteq> 61) E" and "f = [] \<or> 2 \<le> length f"
  shows "strip_padding (E @ f) = E @ strip_padding f"
proof (cases "rev f")
  case Nil
  then have "f = []" by simp
  then show ?thesis
    using strip_padding_append [OF assms(1), of 0] by (simp add: strip_padding_def)
next
  case (Cons a r)
  with assms(2) obtain b r' where r: "r = b # r'"
    by (cases r) (auto simp: Suc_le_eq dest!: arg_cong [where f = length])
  have f: "f = rev r' @ [b, a]" using Cons r by (metis append.assoc append_Cons append_Nil rev.simps(2) rev_rev_ident)
  have rv: "rev (E @ f) = a # b # (r' @ rev E)" unfolding f by simp
  have rf: "rev f = a # b # r'" unfolding f by simp
  show ?thesis
    unfolding strip_padding_def rv rf by (simp add: f)
qed

lemma those_append:
  "those (xs @ ys) =
     (case those xs of None \<Rightarrow> None
      | Some a \<Rightarrow> (case those ys of None \<Rightarrow> None | Some b \<Rightarrow> Some (a @ b)))"
  by (induction xs) (auto split: option.splits)

lemma atob_aligned_prefix:
  assumes vs: "\<And>v. v \<in> set vs \<Longrightarrow> v < 64" and len: "length vs mod 4 = 0"
  shows "atob (map b64char vs @ xs) =
           (case atob xs of Inl e \<Rightarrow> Inl e
            | Inr s \<Rightarrow> Inr (fromCharCode (base64_decode vs) @ s))"
proof -
  let ?E = "map b64char vs"
  let ?f = "filter (\<lambda>c. \<not> ascii_whitespace c) xs"
  let ?f' = "if length ?f mod 4 = 0 then strip_padding ?f else ?f"
  have filt: "filter (\<lambda>c. \<not> ascii_whitespace c) (?E @ xs) = ?E @ ?f"
    using vs by (simp add: filter_id_conv b64char_not_whitespace)
  have lenE: "length (?E @ ys) mod 4 = length ys mod 4" for ys
    using len mod_add_left_eq [of "length vs" 4 "length ys"] by simp
  have nopad: "list_all (\<lambda>c. c \<noteq> 61) ?E"
    using vs by (simp add: list_all_iff b64char_not_pad)
  have strip: "(if length ?f mod 4 = 0 then strip_padding (?E @ ?f) else ?E @ ?f)
      = ?E @ ?f'"
  proof (cases "length ?f mod 4 = 0")
    case True
    then have "length ?f \<noteq> Suc 0" by auto
    then have "?f = [] \<or> 2 \<le> length ?f"
      by (cases "length ?f") (auto simp: Suc_le_eq)
    from strip_padding_prefix [OF nopad this] True show ?thesis
      by simp
  next
    case False
    then show ?thesis by simp
  qed
  have vals: "those (map b64val ?E) = Some vs"
    by (rule those_map_inverse) (simp add: b64val_b64char vs)
  have those: "those (map b64val (?E @ ?f'))
      = (case those (map b64val ?f') of None \<Rightarrow> None | Some b \<Rightarrow> Some (vs @ b))"
    by (simp only: map_append those_append vals option.case)
  show ?thesis
    unfolding atob_def Let_def filt strip lenE those
    by (auto simp: base64_decode_append [OF len] fromCharCode_def split: option.splits)
qed


lemma of_nat_byte_eq: "a < 256 \<Longrightarrow> b < 256 \<Longrightarrow> (of_nat a :: byte) = of_nat b \<longleftrightarrow> a = b"
  by (metis unat_of_nat_byte)

lemma atob_result: "atob t = Inr s \<Longrightarrow> \<exists>bs. s = fromCharCode bs"
  by (auto simp: atob_def Let_def fromCharCode_def split: if_splits option.splits)

lemma atob_nil: "atob [] = Inr []"
  by (simp add: atob_def strip_padding_def)

lemma atob_one: "\<not> ascii_whitespace a \<Longrightarrow> atob [a] = Inl InvalidCharacterError"
  by (simp add: atob_def)

lemma atob_two:
  "b64val a = Some va \<Longrightarrow> b64val b = Some vb \<Longrightarrow>
   atob [a, b] = Inr (fromCharCode [of_nat (va * 4 + vb div 16)])"
  by (frule b64val_Some_not_special, frule b64val_Some_not_special [of b])
    (simp add: atob_def fromCharCode_def)

lemma atob_three:
  "b64val a = Some va \<Longrightarrow> b64val b = Some vb \<Longrightarrow> b64val c = Some vc \<Longrightarrow>
   atob [a, b, c] = Inr (fromCharCode [of_nat (va * 4 + vb div 16),
                                     of_nat ((vb mod 16) * 16 + vc div 4)])"
  by (frule b64val_Some_not_special, frule b64val_Some_not_special [of b],
      frule b64val_Some_not_special [of c])
    (simp add: atob_def fromCharCode_def)

lemma atob_four:
  "b64val a = Some va \<Longrightarrow> b64val b = Some vb \<Longrightarrow> b64val c = Some vc \<Longrightarrow>
   b64val d = Some vd \<Longrightarrow>
   atob [a, b, c, d] = Inr (fromCharCode [of_nat (va * 4 + vb div 16),
                                        of_nat ((vb mod 16) * 16 + vc div 4),
                                        of_nat ((vc mod 4) * 64 + vd)])"
  by (frule b64val_Some_not_special, frule b64val_Some_not_special [of b],
      frule b64val_Some_not_special [of c], frule b64val_Some_not_special [of d])
    (simp add: atob_def fromCharCode_def strip_padding_def)

lemma atob_three_pad:
  "b64val a = Some va \<Longrightarrow> b64val b = Some vb \<Longrightarrow> b64val c = Some vc \<Longrightarrow>
   atob [a, b, c, 61] = atob [a, b, c]"
  by (frule b64val_Some_not_special, frule b64val_Some_not_special [of b],
      frule b64val_Some_not_special [of c])
    (simp add: atob_def strip_padding_def ascii_whitespace_def)

lemma atob_two_pad:
  "b64val a = Some va \<Longrightarrow> b64val b = Some vb \<Longrightarrow>
   atob [a, b, 61, 61] = atob [a, b]"
  by (frule b64val_Some_not_special, frule b64val_Some_not_special [of b])
    (simp add: atob_def strip_padding_def ascii_whitespace_def)


lemma fromCharCode_eq: "fromCharCode xs = fromCharCode ys \<longleftrightarrow> xs = ys"
  by (metis charCodes_fromCharCode)

lemma char_cases:
  obtains "k = 0x2E" | "ascii_whitespace k" | "k = 61"
    | v where "b64val k = Some v"
    | "k \<noteq> 0x2E" "\<not> ascii_whitespace k" "k \<noteq> 61" "b64val k = None"
  by (cases "b64val k") auto

lemma b64val_special: "b64val 61 = None" "b64val 0x2E = None"
  "\<not> ascii_whitespace 61" "\<not> ascii_whitespace 0x2E" "ascii_whitespace k \<Longrightarrow> b64val k = None"
  "ascii_whitespace k \<Longrightarrow> k \<noteq> 61" "ascii_whitespace k \<Longrightarrow> k \<noteq> 0x2E"
  by (auto simp: b64val_def ascii_whitespace_def)

lemma flip_last:
  assumes a: "b64val a = Some va" and b: "b64val b = Some vb" and c: "b64val c = Some vc"
    and k: "k \<noteq> 61"
  shows "atob (hd (js_split 0x2E [a, b, c, k])) = atob [a, b, c]
           \<longleftrightarrow> (k = 0x2E \<or> ascii_whitespace k)"
proof -
  note sa = b64val_Some_not_special [OF a] and sb = b64val_Some_not_special [OF b]
    and sc = b64val_Some_not_special [OF c]
  show ?thesis
  proof (cases k rule: char_cases)
    case 1
    with sa sb sc show ?thesis by simp
  next
    case 2
    with sa sb sc b64val_special(7) [OF 2] have "atob [a, b, c, k] = atob [a, b, c]"
      by (simp add: atob_def)
    with sa sb sc b64val_special(7) [OF 2] 2 show ?thesis by simp
  next
    case 3
    with k show ?thesis by simp
  next
    case (4 v)
    note sk = b64val_Some_not_special [OF 4]
    have "atob [a, b, c, k] \<noteq> atob [a, b, c]"
      by (simp add: atob_four [OF a b c 4] atob_three [OF a b c] fromCharCode_def)
    with sa sb sc sk show ?thesis by simp
  next
    case 5
    with sa sb sc a b c have "atob [a, b, c, k] = Inl InvalidCharacterError"
      by (simp add: atob_def strip_padding_def)
    with sa sb sc 5 show ?thesis by (simp add: atob_three [OF a b c])
  qed
qed


lemma sextet_div_bounds:
  "v < 64 \<Longrightarrow> v div 4 < (16 :: nat)" "v < 64 \<Longrightarrow> v div 16 < (4 :: nat)"
  by (simp_all add: div_less_iff_less_mult)

lemma flip_third:
  assumes a: "b64val a = Some va" and b: "b64val b = Some vb" and c: "b64val c = Some vc"
    and k: "k \<noteq> c"
  shows "atob (hd (js_split 0x2E [a, b, k, 61])) = atob [a, b, c]
           \<longleftrightarrow> (\<exists>v. b64val k = Some v \<and> v div 4 = vc div 4)"
proof -
  note sa = b64val_Some_not_special [OF a] and sb = b64val_Some_not_special [OF b]
    and sc = b64val_Some_not_special [OF c]
  show ?thesis
  proof (cases k rule: char_cases)
    case 1
    with sa sb sc show ?thesis
      by (simp add: atob_two [OF a b] atob_three [OF a b c] fromCharCode_def b64val_special)
  next
    case 2
    with sa sb sc a b b64val_special(6,7) [OF 2]
    have "atob [a, b, k, 61] = Inl InvalidCharacterError"
      by (simp add: atob_def b64val_special)
    with sa sb sc b64val_special(5,7) [OF 2] show ?thesis
      by (simp add: atob_three [OF a b c])
  next
    case 3
    with sa sb sc show ?thesis
      by (simp add: atob_two_pad [OF a b] atob_two [OF a b] atob_three [OF a b c]
          fromCharCode_def b64val_special)
  next
    case (4 v)
    note sk = b64val_Some_not_special [OF 4]
    have lt: "vb mod 16 * 16 + v div 4 < 256" "vb mod 16 * 16 + vc div 4 < 256"
    proof -
      have "vb mod 16 < 16" "v div 4 < 16" "vc div 4 < 16"
        using sk sc by (simp_all add: sextet_div_bounds)
      then show "vb mod 16 * 16 + v div 4 < 256" "vb mod 16 * 16 + vc div 4 < 256"
        by linarith+
    qed
    have lt': "v div 4 < 256" "vc div 4 < 256"
      using sextet_div_bounds(1) [of v] sextet_div_bounds(1) [of vc] sk sc by simp_all
    have "atob [a, b, k, 61] = atob [a, b, c] \<longleftrightarrow> v div 4 = vc div 4"
      by (simp add: atob_three_pad [OF a b 4] atob_three [OF a b 4] atob_three [OF a b c]
          fromCharCode_eq of_nat_byte_eq [OF lt] of_nat_byte_eq [OF lt'])
    with sa sb sk 4 show ?thesis by simp
  next
    case 5
    with sa sb a b have "atob [a, b, k, 61] = Inl InvalidCharacterError"
      by (simp add: atob_def strip_padding_def b64val_special)
    with sa sb 5 show ?thesis by (simp add: atob_three [OF a b c])
  qed
qed


lemma flip_second:
  assumes a: "b64val a = Some va" and b: "b64val b = Some vb" and c: "b64val c = Some vc"
    and k: "k \<noteq> b"
  shows "atob (hd (js_split 0x2E [a, k, c, 61])) \<noteq> atob [a, b, c]"
proof -
  note sa = b64val_Some_not_special [OF a] and sb = b64val_Some_not_special [OF b]
    and sc = b64val_Some_not_special [OF c]
  show ?thesis
  proof (cases k rule: char_cases)
    case 1
    with sa sb sc show ?thesis
      by (simp add: atob_one atob_three [OF a b c])
  next
    case 2
    with sa sc a c b64val_special(6,7) [OF 2]
    have "atob [a, k, c, 61] = Inl InvalidCharacterError"
      by (simp add: atob_def b64val_special)
    with sa sb sc b64val_special(7) [OF 2] show ?thesis
      by (simp add: atob_three [OF a b c])
  next
    case 3
    with sa sc a c have "atob [a, k, c, 61] = Inl InvalidCharacterError"
      by (simp add: atob_def strip_padding_def b64val_special)
    with sa sb sc 3 show ?thesis by (simp add: atob_three [OF a b c])
  next
    case (4 v)
    note sk = b64val_Some_not_special [OF 4]
    have bounds: "va * 4 + v div 16 < 256" "va * 4 + vb div 16 < 256"
      "v mod 16 * 16 + vc div 4 < 256" "vb mod 16 * 16 + vc div 4 < 256"
    proof -
      have "v div 16 < 4" "vb div 16 < 4" "vc div 4 < 16" "v mod 16 < 16" "vb mod 16 < 16"
        "va < 64"
        using sa sb sc sk by (simp_all add: sextet_div_bounds)
      then show "va * 4 + v div 16 < 256" "va * 4 + vb div 16 < 256"
      "v mod 16 * 16 + vc div 4 < 256" "vb mod 16 * 16 + vc div 4 < 256" by linarith+
    qed
    have "atob [a, k, c, 61] \<noteq> atob [a, b, c]"
    proof
      assume "atob [a, k, c, 61] = atob [a, b, c]"
      then have "va * 4 + v div 16 = va * 4 + vb div 16
          \<and> v mod 16 * 16 + vc div 4 = vb mod 16 * 16 + vc div 4"
        by (simp only: atob_three_pad [OF a 4 c] atob_three [OF a 4 c] atob_three [OF a b c]
            sum.inject fromCharCode_eq list.inject of_nat_byte_eq [OF bounds(1,2)]
            of_nat_byte_eq [OF bounds(3,4)] simp_thms)
      then have "v div 16 = vb div 16" "v mod 16 = vb mod 16" by simp_all
      then have "v = vb" by (metis div_mult_mod_eq)
      with 4 b have "k = b" using b64char_b64val by metis
      with k show False by simp
    qed
    with sa sb sc sk show ?thesis by simp
  next
    case 5
    with sa sc a c have "atob [a, k, c, 61] = Inl InvalidCharacterError"
      by (simp add: atob_def strip_padding_def b64val_special)
    with sa sb sc 5 show ?thesis by (simp add: atob_three [OF a b c])
  qed
qed

lemma flip_first:
  assumes a: "b64val a = Some va" and b: "b64val b = Some vb" and c: "b64val c = Some vc"
    and k: "k \<noteq> a"
  shows "atob (hd (js_split 0x2E [k, b, c, 61])) \<noteq> atob [a, b, c]"
proof -
  note sa = b64val_Some_not_special [OF a] and sb = b64val_Some_not_special [OF b]
    and sc = b64val_Some_not_special [OF c]
  show ?thesis
  proof (cases k rule: char_cases)
    case 1
    with sa sb sc show ?thesis
      by (simp add: atob_nil atob_three [OF a b c] fromCharCode_def)
  next
    case 2
    with sb sc b c b64val_special(6,7) [OF 2]
    have "atob [k, b, c, 61] = Inl InvalidCharacterError"
      by (simp add: atob_def b64val_special)
    with sa sb sc b64val_special(7) [OF 2] show ?thesis
      by (simp add: atob_three [OF a b c])
  next
    case 3
    with sb sc b c have "atob [k, b, c, 61] = Inl InvalidCharacterError"
      by (simp add: atob_def strip_padding_def b64val_special)
    with sa sb sc 3 show ?thesis by (simp add: atob_three [OF a b c] b64val_special)
  next
    case (4 v)
    note sk = b64val_Some_not_special [OF 4]
    have bounds: "v * 4 + vb div 16 < 256" "va * 4 + vb div 16 < 256"
    proof -
      have "vb div 16 < 4" "va < 64" "v < 64"
        using sa sb sk by (simp_all add: sextet_div_bounds)
      then show "v * 4 + vb div 16 < 256" "va * 4 + vb div 16 < 256" by linarith+
    qed
    have "atob [k, b, c, 61] \<noteq> atob [a, b, c]"
    proof
      assume "atob [k, b, c, 61] = atob [a, b, c]"
      then have "v * 4 + vb div 16 = va * 4 + vb div 16"
        by (simp only: atob_three_pad [OF 4 b c] atob_three [OF 4 b c] atob_three [OF a b c]
            sum.inject fromCharCode_eq list.inject of_nat_byte_eq [OF bounds] simp_thms)
      then have "v = va" by simp
      with 4 a have "k = a" using b64char_b64val by metis
      with k show False by simp
    qed
    with sa sb sc sk show ?thesis by simp
  next
    case 5
    with sb sc b c have "atob [k, b, c, 61] = Inl InvalidCharacterError"
      by (simp add: atob_def strip_padding_def b64val_special)
    with sa sb sc 5 show ?thesis by (simp add: atob_three [OF a b c])
  qed
qed


lemma verify_payload_prefix:
  assumes pb: "btoa (JSON_stringify P payload) = Inr pb"
    and key: "deriveHmacKey secret = Inr key"
    and roundtrip: "JSON_parse P (JSON_stringify P payload) = Some payload"
    and nonempty: "JSON_stringify P payload \<noteq> []"
  shows "verifySessionToken P now (pb @ 0x2E # S) secret =
     (if hd (js_split 0x2E S) = [] then None
      else case atob (hd (js_split 0x2E S)) of
             Inl _ \<Rightarrow> None
           | Inr s \<Rightarrow>
               if charCodes s \<noteq> hmac_sha256 P key (TextEncoder_encode pb) then None
               else if now - createdAt payload > SESSION_MAX_AGE_MS then None
               else Some payload)"
proof -
  have nodot: "0x2E \<notin> set pb"
    using btoa_alphabet [OF pb] base64_alphabet_not_special by blast
  have pb_ne: "pb \<noteq> []" using btoa_empty [OF pb] nonempty by simp
  obtain sb rest where sp: "js_split 0x2E S = sb # rest"
    using js_split_nonempty [of "0x2E" S] by (cases "js_split 0x2E S") auto
  have split: "js_split 0x2E (pb @ 0x2E # S) = pb # sb # rest"
    by (simp add: js_split_append [OF nodot] sp)
  show ?thesis
    by (simp add: verifySessionToken_def split sp pb_ne key atob_btoa [OF pb] roundtrip
        split: sum.splits)
qed

lemma verify_tail:
  assumes pb: "btoa (JSON_stringify P payload) = Inr pb"
    and key: "deriveHmacKey secret = Inr key"
    and roundtrip: "JSON_parse P (JSON_stringify P payload) = Some payload"
    and nonempty: "JSON_stringify P payload \<noteq> []"
    and vs: "\<And>v. v \<in> set vs \<Longrightarrow> v < 64" and len: "length vs mod 4 = 0" and ne: "vs \<noteq> []"
    and sig: "hmac_sha256 P key (TextEncoder_encode pb) = base64_decode vs @ xy"
  shows "verifySessionToken P now (pb @ 0x2E # map b64char vs @ T) secret =
     (if atob (hd (js_split 0x2E T)) = Inr (fromCharCode xy)
      then (if now - createdAt payload > SESSION_MAX_AGE_MS then None else Some payload)
      else None)"
proof -
  have nodot: "0x2E \<notin> set (map b64char vs)"
    using vs base64_alphabet_b64char base64_alphabet_not_special by fastforce
  have hd: "hd (js_split 0x2E (map b64char vs @ T)) = map b64char vs @ hd (js_split 0x2E T)"
    by (simp add: js_split_prefix [OF nodot])
  have ne': "map b64char vs @ hd (js_split 0x2E T) \<noteq> []" using ne by simp
  have dec: "atob (map b64char vs @ hd (js_split 0x2E T)) =
      (case atob (hd (js_split 0x2E T)) of Inl e \<Rightarrow> Inl e
       | Inr s \<Rightarrow> Inr (fromCharCode (base64_decode vs) @ s))"
    by (rule atob_aligned_prefix [OF vs len])
  show ?thesis
  proof (cases "atob (hd (js_split 0x2E T))")
    case (Inl e)
    then show ?thesis
      by (simp add: verify_payload_prefix [OF pb key roundtrip nonempty] hd ne' dec)
  next
    case (Inr s)
    then obtain bs where s: "s = fromCharCode bs" using atob_result by blast
    have "charCodes (fromCharCode (base64_decode vs) @ s) = base64_decode vs @ bs"
      using charCodes_fromCharCode [of "base64_decode vs @ bs"]
      by (simp add: s fromCharCode_def)
    then show ?thesis
      using ne
      by (simp add: verify_payload_prefix [OF pb key roundtrip nonempty] hd dec Inr sig
          s fromCharCode_eq)
  qed
qed


lemma encode_signature:
  assumes "length sig = 32"
  obtains s30 x y where "sig = s30 @ [x, y]" "length s30 = 30"
    "base64_encode sig = map b64char (sextets s30)
       @ [b64char (unat x div 4), b64char (unat x mod 4 * 16 + unat y div 16),
          b64char (unat y mod 16 * 4), 61]"
proof -
  have "length (drop 30 sig) = 2" using assms by simp
  then obtain x y where d: "drop 30 sig = [x, y]"
    by (cases "drop 30 sig" rule: sextets.cases) auto
  have sig: "sig = take 30 sig @ [x, y]" using d by (metis append_take_drop_id)
  have l30: "length (take 30 sig) = 30" using assms by simp
  have m3: "length (take 30 sig) mod 3 = 0" unfolding l30 by simp
  have l32: "length (take 30 sig @ [x, y]) = 32" using sig assms by simp
  have pad: "replicate ((3 - length (take 30 sig @ [x, y]) mod 3) mod 3) (61 :: jschar) = [61]"
    unfolding l32 by simp
  have "base64_encode (take 30 sig @ [x, y]) = map b64char (sextets (take 30 sig))
       @ [b64char (unat x div 4), b64char (unat x mod 4 * 16 + unat y div 16),
          b64char (unat y mod 16 * 4), 61]"
    unfolding base64_encode_def pad by (simp add: sextets_append [OF m3])
  with sig l30 that show thesis by metis
qed

lemma tamper_last_four:
  assumes created: "createSessionToken P payload secret = Inr token"
    and roundtrip: "JSON_parse P (JSON_stringify P payload) = Some payload"
    and nonempty: "JSON_stringify P payload \<noteq> []"
    and mac: "\<And>key data. length (hmac_sha256 P key data) = 32"
    and i: "length token - 4 \<le> i" "i < length token"
    and c: "c \<noteq> token ! i"
  shows "verifySessionToken P now (token[i := c]) secret =
           (if harmless_flip token i c then verifySessionToken P now token secret else None)"
proof -
  from created obtain pb key where
    pb: "btoa (JSON_stringify P payload) = Inr pb"
    and key: "deriveHmacKey secret = Inr key"
    and token: "token = pb @ 0x2E
               # base64_encode (hmac_sha256 P key (TextEncoder_encode pb))"
    by (rule createSessionToken_shape)
  let ?sig = "hmac_sha256 P key (TextEncoder_encode pb)"
  from encode_signature [OF mac [of key "TextEncoder_encode pb"]]
  obtain s30 x y where sig: "?sig = s30 @ [x, y]" and l30: "length s30 = 30"
    and enc: "base64_encode ?sig = map b64char (sextets s30)
       @ [b64char (unat x div 4), b64char (unat x mod 4 * 16 + unat y div 16),
          b64char (unat y mod 16 * 4), 61]"
    by blast
  define vs where "vs = sextets s30"
  define va where "va = unat x div 4"
  define vb where "vb = unat x mod 4 * 16 + unat y div 16"
  define vc where "vc = unat y mod 16 * 4"
  define pre where "pre = pb @ 0x2E # map b64char vs"
  have tok: "token = pre @ [b64char va, b64char vb, b64char vc, 61]"
    unfolding token enc pre_def vs_def va_def vb_def vc_def by simp
  have a: "b64val (b64char va) = Some va" and b: "b64val (b64char vb) = Some vb"
    and c3: "b64val (b64char vc) = Some vc"
    unfolding va_def vb_def vc_def by (simp_all add: b64val_b64char sextet_bounds)
  have dec: "[of_nat (va * 4 + vb div 16), of_nat (vb mod 16 * 16 + vc div 4)] = [x, y]"
    using base64_decode_sextets [of "[x, y]"] unfolding va_def vb_def vc_def
    by (simp only: sextets.simps base64_decode.simps)
  have xy: "atob [b64char va, b64char vb, b64char vc] = Inr (fromCharCode [x, y])"
    unfolding atob_three [OF a b c3] dec by (rule refl)
  have vs: "\<And>v. v \<in> set vs \<Longrightarrow> v < 64" unfolding vs_def by (rule sextets_bound)
  have len: "length vs mod 4 = 0"
    using length_sextets_pad [of s30] by (simp add: vs_def l30)
  have ne: "vs \<noteq> []" using l30 by (auto simp: vs_def sextets_empty)
  have sig': "?sig = base64_decode vs @ [x, y]"
    by (simp add: sig vs_def base64_decode_sextets)
  have tail: "verifySessionToken P now (pre @ T) secret =
     (if atob (hd (js_split 0x2E T)) = atob [b64char va, b64char vb, b64char vc]
      then (if now - createdAt payload > SESSION_MAX_AGE_MS then None else Some payload)
      else None)" for T
    using verify_tail [OF pb key roundtrip nonempty vs len ne sig', of now T]
    by (simp add: pre_def xy)
  let ?R = "if now - createdAt payload > SESSION_MAX_AGE_MS then None else Some payload"
  have R: "verifySessionToken P now token secret = ?R"
    by (rule verify_created_token [OF created roundtrip nonempty mac])
  define j where "j = i - length pre"
  have j: "j < 4" and ij: "i = length pre + j" using i by (auto simp: tok j_def)
  have upd: "token[i := c] = pre @ [b64char va, b64char vb, b64char vc, 61][j := c]"
    unfolding tok ij by (simp add: list_update_append)
  have nth: "token ! i = [b64char va, b64char vb, b64char vc, 61] ! j"
    unfolding tok ij by (simp add: nth_append)
  have ltok: "length token = length pre + 4" by (simp add: tok)
  from j consider "j = 0" | "j = 1" | "j = 2" | "j = 3" by linarith
  then show ?thesis
  proof cases
    case 1
    with c nth have k: "c \<noteq> b64char va" by simp
    have "\<not> harmless_flip token i c" by (simp add: harmless_flip_def ltok ij 1)
    then show ?thesis
      using flip_first [OF a b c3 k] unfolding upd 1 by (simp only: list_update_code tail if_False)
  next
    case 2
    with c nth have k: "c \<noteq> b64char vb" by simp
    have "\<not> harmless_flip token i c" by (simp add: harmless_flip_def ltok ij 2)
    then show ?thesis
      using flip_second [OF a b c3 k] unfolding upd 2
      by (simp only: One_nat_def list_update_code tail if_False)
  next
    case 3
    with c nth have k: "c \<noteq> b64char vc" by simp
    have ti: "token ! i = b64char vc" using nth 3 by simp
    have li: "Suc (Suc i) = length token" "Suc i \<noteq> length token"
      using ltok ij 3 by simp_all
    have "harmless_flip token i c \<longleftrightarrow> (\<exists>v. b64val c = Some v \<and> v div 4 = vc div 4)"
      unfolding harmless_flip_def ti c3 using li by (auto split: option.splits)
    then show ?thesis
      using flip_third [OF a b c3 k] unfolding upd 3
      by (simp only: numeral_2_eq_2 list_update_code tail R)
  next
    case 4
    with c nth have k: "c \<noteq> 61" by simp
    have "harmless_flip token i c \<longleftrightarrow> (c = 0x2E \<or> ascii_whitespace c)"
      by (auto simp: harmless_flip_def ltok ij 4)
    then show ?thesis
      using flip_last [OF a b c3 k] unfolding upd 4
      by (simp only: numeral_3_eq_3 list_update_code tail R)
  qed
qed

text \<open>
  A change in the payload segment: the signature is then compared with the HMAC of the
  changed segment, or, when a dot was put in, the rest of the segment is taken for the
  signature of what precedes the dot.
\<close>

lemma payload_segment_token:
  assumes "0x2E \<notin> set pb"
  shows "payload_segment (pb @ 0x2E # rest) = pb"
proof -
  have "\<And>x. x \<in> set pb \<Longrightarrow> x \<noteq> 0x2E" using assms by auto
  then show ?thesis by (simp add: payload_segment_def takeWhile_append2)
qed

lemma tamper_payload:
  assumes created: "createSessionToken P payload secret = Inr token"
    and coll: "\<forall>i c. i < length (payload_segment token) \<longrightarrow> c \<noteq> token ! i \<longrightarrow>
        hmac_sha256 P (TextEncoder_encode secret)
            (TextEncoder_encode ((payload_segment token)[i := c]))
          \<noteq> hmac_sha256 P (TextEncoder_encode secret)
              (TextEncoder_encode (payload_segment token))"
    and dot: "\<forall>i s. i < length (payload_segment token) \<longrightarrow>
        atob (drop (Suc i) (payload_segment token)) = Inr s \<longrightarrow>
        charCodes s \<noteq> hmac_sha256 P (TextEncoder_encode secret)
                          (TextEncoder_encode (take i (payload_segment token)))"
    and i: "i < length (payload_segment token)" and c: "c \<noteq> token ! i"
  shows "verifySessionToken P now (token[i := c]) secret = None"
proof -
  from created obtain pb key where
    pb: "btoa (JSON_stringify P payload) = Inr pb"
    and key: "deriveHmacKey secret = Inr key"
    and token: "token = pb @ 0x2E
               # base64_encode (hmac_sha256 P key (TextEncoder_encode pb))"
    by (rule createSessionToken_shape)
  let ?sig = "hmac_sha256 P key (TextEncoder_encode pb)"
  have k: "key = TextEncoder_encode secret"
    using key by (simp add: deriveHmacKey_def Let_def split: if_splits)
  have nodot: "0x2E \<notin> set pb"
    using btoa_alphabet [OF pb] base64_alphabet_not_special by blast
  have seg: "payload_segment token = pb"
    unfolding token by (rule payload_segment_token [OF nodot])
  have i': "i < length pb" using i by (simp add: seg)
  have nth: "token ! i = pb ! i" using i' by (simp add: token nth_append)
  have upd: "token[i := c] = pb[i := c] @ 0x2E # base64_encode ?sig"
    using i' by (simp add: token list_update_append)
  show ?thesis
  proof (cases "c = 0x2E")
    case True
    have parts: "pb[i := c] = take i pb @ 0x2E # drop (Suc i) pb"
      using i' True by (simp add: upd_conv_take_nth_drop)
    have n1: "0x2E \<notin> set (take i pb)" using nodot by (auto dest: in_set_takeD)
    have n2: "0x2E \<notin> set (drop (Suc i) pb)" using nodot by (auto dest: in_set_dropD)
    have split: "js_split 0x2E (token[i := c])
        = take i pb # drop (Suc i) pb # js_split 0x2E (base64_encode ?sig)"
      unfolding upd parts by (simp add: js_split_append [OF n1] js_split_append [OF n2])
    from dot i' have "charCodes s \<noteq> hmac_sha256 P key (TextEncoder_encode (take i pb))"
      if "atob (drop (Suc i) pb) = Inr s" for s
      using that by (simp add: seg k)
    then show ?thesis
      by (simp add: verifySessionToken_def split key split: sum.splits)
  next
    case False
    have n: "0x2E \<notin> set (pb[i := c])"
      using nodot False set_update_subset_insert [of pb i c] by auto
    have n': "0x2E \<notin> set (base64_encode ?sig)"
      using base64_encode_alphabet base64_alphabet_not_special by blast
    have split: "js_split 0x2E (token[i := c]) = [pb[i := c], base64_encode ?sig]"
      unfolding upd by (simp add: js_split_append [OF n] js_split_no_separator [OF n'])
    from coll i c have "hmac_sha256 P key (TextEncoder_encode (pb[i := c])) \<noteq> ?sig"
      by (simp add: seg k)
    then show ?thesis
      by (simp add: verifySessionToken_def split key atob_base64_encode charCodes_fromCharCode)
  qed
qed

lemma demo_mac_inj:
  assumes "length d < 32" and "demo_mac key d' = demo_mac key d"
  shows "d' = d"
proof (cases "length d' < 32")
  case True
  with assms have hd: "(of_nat (length d') :: byte) = of_nat (length d)"
    and tl: "d' @ replicate (31 - length d') (of_nat (sum_list (map unat key) mod 256))
           = d @ replicate (31 - length d) (of_nat (sum_list (map unat key) mod 256) :: byte)"
    by (simp_all add: demo_mac_def)
  from hd True assms(1) have "length d' = length d"
    using of_nat_byte_eq [of "length d'" "length d"] by simp
  with tl show ?thesis by simp
next
  case False
  with assms have "(0xFF :: byte) = of_nat (length d)"
    by (simp add: demo_mac_def replicate_numeral)
  then have "(of_nat 255 :: byte) = of_nat (length d)" by simp
  with assms(1) have "255 = length d"
    using of_nat_byte_eq [of 255 "length d"] by simp
  with assms(1) show ?thesis by simp
qed

lemma length_base64_decode: "length (base64_decode vs) \<le> length vs"
  by (induction vs rule: base64_decode.induct) simp_all

lemma length_those: "those xs = Some ys \<Longrightarrow> length ys = length xs"
  by (induction xs arbitrary: ys) (auto split: option.splits)

lemma length_strip_padding: "length (strip_padding d) \<le> length d"
proof (cases "rev d")
  case Nil
  then show ?thesis by (simp add: strip_padding_def)
next
  case (Cons a r)
  then have len: "length d = Suc (length r)" by (metis length_Cons length_rev)
  show ?thesis
  proof (cases r)
    case Nil
    with Cons show ?thesis by (simp add: strip_padding_def)
  next
    case (Cons b q)
    with \<open>rev d = a # r\<close> len show ?thesis by (simp add: strip_padding_def)
  qed
qed

lemma atob_length: "atob t = Inr s \<Longrightarrow> length s \<le> length t"
proof -
  assume a: "atob t = Inr s"
  define d where "d = filter (\<lambda>c. \<not> ascii_whitespace c) t"
  define d' where "d' = (if length d mod 4 = 0 then strip_padding d else d)"
  from a obtain vs where vs: "those (map b64val d') = Some vs"
    and s: "s = map ucast (base64_decode vs)"
    by (auto simp: atob_def Let_def d_def d'_def split: if_splits option.splits)
  have "length s \<le> length vs" using length_base64_decode [of vs] by (simp add: s)
  also have "length vs = length d'" using length_those [OF vs] by simp
  also have "length d' \<le> length d" using length_strip_padding [of d] by (simp add: d'_def)
  also have "length d \<le> length t" by (simp add: d_def)
  finally show ?thesis .
qed


text \<open>
  C5. The claim is that a change of any single character among the last four of an issued
  token makes verification return \<open>null\<close>. The signature segment ends in a padding
  character and in a character of which only four bits are used: with the final \<open>=\<close>
  replaced by a dot, or with the \<open>s\<close> before it replaced by \<open>t\<close>, the token still
  verifies.
\<close>

theorem tampered_token_accepted:
  "createSessionToken demo_platform demo_user (js ''k'') = Inr demo_token
   \<and> length demo_token = 57
   \<and> demo_token ! 56 \<noteq> 0x2E
   \<and> verifySessionToken demo_platform 7 (demo_token[56 := 0x2E]) (js ''k'') = Some demo_user
   \<and> demo_token ! 55 \<noteq> 0x74
   \<and> verifySessionToken demo_platform 7 (demo_token[55 := 0x74]) (js ''k'') = Some demo_user"
proof -
  have u1: "demo_token[56 := 0x2E]
      = js ''YWJ8Y2R8NQ==.DFlXSjhZMlI4TlE9PWtra2tra2tra2tra2tra2tra2s.''"
    by (simp add: demo_token_def js_def eval_nat_numeral)
  have u2: "demo_token[55 := 0x74]
      = js ''YWJ8Y2R8NQ==.DFlXSjhZMlI4TlE9PWtra2tra2tra2tra2tra2tra2t=''"
    by (simp add: demo_token_def js_def eval_nat_numeral)
  show ?thesis
    unfolding u1 u2
    by (simp add: createSessionToken_def verifySessionToken_def model_eval demo_eval)
qed


text \<open>
  C5, as the code has it. For a token issued by \<^verbatim>\<open>createSessionToken\<close>, replacing one
  of its last four characters by another character makes verification under the same
  secret return \<open>null\<close>, except for the replacements that leave the signature bytes
  unchanged, after which the token verifies as before. Replacing any character of the
  payload segment by another character makes verification return \<open>null\<close>, HMAC being
  taken as free of collisions there: a payload segment with one character changed does
  not have the HMAC of the issued one, and no tail of the payload segment decodes to the
  HMAC of what precedes it. The other assumptions on the platform are those of the expiry
  theorem.
\<close>

theorem session_tamper:
  assumes "createSessionToken P payload secret = Inr token"
    and "JSON_parse P (JSON_stringify P payload) = Some payload"
    and "JSON_stringify P payload \<noteq> []"
    and "\<And>key data. length (hmac_sha256 P key data) = 32"
  shows "(\<forall>i c. length token - 4 \<le> i \<longrightarrow> i < length token \<longrightarrow> c \<noteq> token ! i \<longrightarrow>
            verifySessionToken P now (token[i := c]) secret =
              (if harmless_flip token i c then verifySessionToken P now token secret
               else None))
       \<and> ((\<forall>i c. i < length (payload_segment token) \<longrightarrow> c \<noteq> token ! i \<longrightarrow>
              hmac_sha256 P (TextEncoder_encode secret)
                  (TextEncoder_encode ((payload_segment token)[i := c]))
                \<noteq> hmac_sha256 P (TextEncoder_encode secret)
                    (TextEncoder_encode (payload_segment token))) \<longrightarrow>
           (\<forall>i s. i < length (payload_segment token) \<longrightarrow>
              atob (drop (Suc i) (payload_segment token)) = Inr s \<longrightarrow>
              charCodes s \<noteq> hmac_sha256 P (TextEncoder_encode secret)
                                (TextEncoder_encode (take i (payload_segment token)))) \<longrightarrow>
           (\<forall>i c. i < length (payload_segment token) \<longrightarrow> c \<noteq> token ! i \<longrightarrow>
              verifySessionToken P now (token[i := c]) secret = None))"
proof (intro conjI allI impI)
  fix i c
  assume "length token - 4 \<le> i" "i < length token" "c \<noteq> token ! i"
  then show "verifySessionToken P now (token[i := c]) secret =
              (if harmless_flip token i c then verifySessionToken P now token secret
               else None)"
    by (rule tamper_last_four [OF assms])
next
  fix i c
  assume "\<forall>i c. i < length (payload_segment token) \<longrightarrow> c \<noteq> token ! i \<longrightarrow>
              hmac_sha256 P (TextEncoder_encode secret)
                  (TextEncoder_encode ((payload_segment token)[i := c]))
                \<noteq> hmac_sha256 P (TextEncoder_encode secret)
                    (TextEncoder_encode (payload_segment token))"
    and "\<forall>i s. i < length (payload_segment token) \<longrightarrow>
              atob (drop (Suc i) (payload_segment token)) = Inr s \<longrightarrow>
              charCodes s \<noteq> hmac_sha256 P (TextEncoder_encode secret)
                                (TextEncoder_encode (take i (payload_segment token)))"
    and "i < length (payload_segment token)" and "c \<noteq> token ! i"
  then show "verifySessionToken P now (token[i := c]) secret = None"
    by (rule tamper_payload [OF assms(1)])
qed

theorem session_tamper_witness:
  "verifySessionToken demo_platform 7 (demo_token[53 := 0x78]) (js ''k'') = None
   \<and> verifySessionToken demo_platform 7 (demo_token[56 := 0x20]) (js ''k'')
       = verifySessionToken demo_platform 7 demo_token (js ''k'')
   \<and> verifySessionToken demo_platform 7 (demo_token[3 := 0x78]) (js ''k'') = None
   \<and> verifySessionToken demo_platform 7 (demo_token[3 := 0x2E]) (js ''k'') = None"
proof -
  have 1: "createSessionToken demo_platform demo_user (js ''k'') = Inr demo_token"
    by (simp add: createSessionToken_def model_eval demo_eval)
  have 2: "JSON_parse demo_platform (JSON_stringify demo_platform demo_user) = Some demo_user"
    by (simp add: model_eval demo_eval)
  have 3: "JSON_stringify demo_platform demo_user \<noteq> []"
    by (simp add: model_eval demo_eval)
  have 4: "length (hmac_sha256 demo_platform key data) = 32" for key data
    by (simp add: demo_platform_def demo_mac_def)
  have len: "length demo_token = 57" by (simp add: demo_token_def js_def)
  have n53: "demo_token ! 53 = 0x61" and n56: "demo_token ! 56 = 0x3D"
    and n3: "demo_token ! 3 = 0x38"
    by (simp_all add: demo_token_def js_def)
  have h53: "\<not> harmless_flip demo_token 53 0x78"
    by (simp add: harmless_flip_def len)
  have h56: "harmless_flip demo_token 56 0x20"
    by (simp add: harmless_flip_def len ascii_whitespace_def)
  have seg: "payload_segment demo_token = js ''YWJ8Y2R8NQ==''"
    by (simp add: payload_segment_def demo_token_def js_def)
  have ascii: "list_all (\<lambda>u. u < 0x80) (js ''YWJ8Y2R8NQ=='')" by (simp add: js_def)
  have l12: "length (js ''YWJ8Y2R8NQ=='') = 12" by (simp add: js_def)
  have lte: "length (TextEncoder_encode (js ''YWJ8Y2R8NQ=='')) < 32"
    using TextEncoder_ascii [OF ascii] l12 by simp
  have coll: "\<forall>i c. i < length (payload_segment demo_token) \<longrightarrow> c \<noteq> demo_token ! i \<longrightarrow>
              hmac_sha256 demo_platform (TextEncoder_encode (js ''k''))
                  (TextEncoder_encode ((payload_segment demo_token)[i := c]))
                \<noteq> hmac_sha256 demo_platform (TextEncoder_encode (js ''k''))
                    (TextEncoder_encode (payload_segment demo_token))"
  proof (intro allI impI)
    fix i c
    assume i: "i < length (payload_segment demo_token)" and c: "c \<noteq> demo_token ! i"
    have "payload_segment demo_token ! i = demo_token ! i"
      using i unfolding payload_segment_def by (rule takeWhile_nth)
    with i c have "(payload_segment demo_token)[i := c] \<noteq> payload_segment demo_token"
      by (metis nth_list_update_eq)
    then have "TextEncoder_encode ((js ''YWJ8Y2R8NQ=='')[i := c])
        \<noteq> TextEncoder_encode (js ''YWJ8Y2R8NQ=='')"
      using TextEncoder_ascii_inj [OF ascii, of "(js ''YWJ8Y2R8NQ=='')[i := c]"]
      by (auto simp: seg)
    then show "hmac_sha256 demo_platform (TextEncoder_encode (js ''k''))
                  (TextEncoder_encode ((payload_segment demo_token)[i := c]))
                \<noteq> hmac_sha256 demo_platform (TextEncoder_encode (js ''k''))
                    (TextEncoder_encode (payload_segment demo_token))"
      using demo_mac_inj [OF lte] by (auto simp: seg demo_platform_def)
  qed
  have dot: "\<forall>i s. i < length (payload_segment demo_token) \<longrightarrow>
              atob (drop (Suc i) (payload_segment demo_token)) = Inr s \<longrightarrow>
              charCodes s \<noteq> hmac_sha256 demo_platform (TextEncoder_encode (js ''k''))
                                (TextEncoder_encode (take i (payload_segment demo_token)))"
  proof (intro allI impI)
    fix i s
    assume "atob (drop (Suc i) (payload_segment demo_token)) = Inr s"
    then have "length s \<le> length (drop (Suc i) (payload_segment demo_token))"
      by (rule atob_length)
    then have "length (charCodes s) < 32" by (simp add: seg l12 charCodes_def)
    then show "charCodes s \<noteq> hmac_sha256 demo_platform (TextEncoder_encode (js ''k''))
                                (TextEncoder_encode (take i (payload_segment demo_token)))"
      using 4 [of "TextEncoder_encode (js ''k'')"
          "TextEncoder_encode (take i (payload_segment demo_token))"] by auto
  qed
  note inst = session_tamper [OF 1 2 3 4, of 7, THEN conjunct1, rule_format]
  note inst' = session_tamper [OF 1 2 3 4, of 7, THEN conjunct2, THEN mp, OF coll, THEN mp, OF dot,
      rule_format]
  have a: "verifySessionToken demo_platform 7 (demo_token[53 := 0x78]) (js ''k'') = None"
    using inst [of 53 "0x78"] h53 by (simp add: len n53)
  have b: "verifySessionToken demo_platform 7 (demo_token[56 := 0x20]) (js ''k'')
       = verifySessionToken demo_platform 7 demo_token (js ''k'')"
    using inst [of 56 "0x20"] h56 by (simp add: len n56)
  have c: "verifySessionToken demo_platform 7 (demo_token[3 := 0x78]) (js ''k'') = None"
    using inst' [of 3 "0x78"] by (simp add: seg l12 n3)
  have d: "verifySessionToken demo_platform 7 (demo_token[3 := 0x2E]) (js ''k'') = None"
    using inst' [of 3 "0x2E"] by (simp add: seg l12 n3)
  from a b c d show ?thesis by blast
qed

end
